theory Spec2Isabelle
  imports Main
begin

section \<open>The schema graph of \<^verbatim>\<open>pdm_utils/classes/databasetree.py\<close>\<close>

text \<open>
  The module keeps a graph of \<^verbatim>\<open>Node\<close> objects (\<^verbatim>\<open>DatabaseNode\<close>, \<^verbatim>\<open>TableNode\<close>,
  \<^verbatim>\<open>ColumnNode\<close>) that refer to each other through their \<^verbatim>\<open>parents\<close> and
  \<^verbatim>\<open>children\<close> lists. One object is listed by several others and is mutated in place,
  so the model is an explicit store: a reference is an index into a list of node records,
  and every method takes the store and returns the updated one. Python compares
  \<^verbatim>\<open>Node\<close> objects by identity (the classes define no \<^verbatim>\<open>__eq__\<close>), which is equality
  of references here.
\<close>

subsection \<open>Values, errors, nodes and the store\<close>

datatype error = ValueError | AttributeError | KeyError | IndexError | TypeError

text \<open>A value of a result row of the catalog backend: a string or an integer.\<close>

datatype sql_value = Str string | Num int

type_synonym ref = nat

text \<open>
  One record for the three node classes: \<^verbatim>\<open>id\<close>, \<^verbatim>\<open>parents\<close>, \<^verbatim>\<open>children\<close> of
  \<^verbatim>\<open>Node\<close>; \<^verbatim>\<open>primary_key\<close> of \<^verbatim>\<open>TableNode\<close> (\<open>None\<close> is Python's \<^verbatim>\<open>None\<close>);
  \<^verbatim>\<open>type\<close>, \<^verbatim>\<open>null\<close>, \<^verbatim>\<open>key\<close>, \<^verbatim>\<open>group\<close> of \<^verbatim>\<open>ColumnNode\<close>.
\<close>

record node =
  node_id :: string
  parents :: "ref list"
  children :: "ref list"
  primary_key :: "ref option"
  col_type :: "string option"
  col_null :: "bool option"
  col_key :: "string option"
  group :: string

type_synonym store = "node list"

text \<open>
  A Python reference always denotes a live object. The store is total all the same: a
  reference beyond the allocated ones reads as an unlinked node, which no run of the
  program reaches.
\<close>

definition blank :: node where
  "blank = \<lparr>node_id = [], parents = [], children = [], primary_key = None,
     col_type = None, col_null = None, col_key = None, group = []\<rparr>"

definition node_at :: "store \<Rightarrow> ref \<Rightarrow> node" where
  "node_at h r = (if r < length h then h ! r else blank)"

definition put :: "store \<Rightarrow> ref \<Rightarrow> node \<Rightarrow> store" where
  "put h r n = h[r := n]"

text \<open>\<^verbatim>\<open>Node.__init__(id)\<close>, \<^verbatim>\<open>TableNode.__init__(id)\<close> (\<^verbatim>\<open>primary_key = None\<close>) and
  \<^verbatim>\<open>ColumnNode.__init__(id, type, Null, key)\<close> (\<^verbatim>\<open>group = "Undefined"\<close>; the
  three optional arguments default to \<^verbatim>\<open>None\<close>): the new
  object gets the next free reference.\<close>

definition Node :: "store \<Rightarrow> string \<Rightarrow> ref \<times> store" where
  "Node h i = (length h, h @ [blank\<lparr>node_id := i\<rparr>])"

definition TableNode :: "store \<Rightarrow> string \<Rightarrow> ref \<times> store" where
  "TableNode h i = (length h, h @ [blank\<lparr>node_id := i, primary_key := None\<rparr>])"

definition ColumnNode ::
  "store \<Rightarrow> string \<Rightarrow> string option \<Rightarrow> bool option \<Rightarrow> string option \<Rightarrow> ref \<times> store" where
  "ColumnNode h i ty nl k =
     (length h, h @ [blank\<lparr>node_id := i, col_type := ty, col_null := nl, col_key := k,
        group := ''Undefined''\<rparr>])"

subsection \<open>\<^verbatim>\<open>Node\<close>: linking and unlinking\<close>

text \<open>\<^verbatim>\<open>add_parent\<close>: \<^verbatim>\<open>parent_node.children.append(self); self.parents.append(parent_node)\<close>.\<close>

definition add_parent :: "store \<Rightarrow> ref \<Rightarrow> ref \<Rightarrow> store" where
  "add_parent h self parent_node =
     (let h1 = put h parent_node
                 ((node_at h parent_node)\<lparr>children := children (node_at h parent_node) @ [self]\<rparr>)
      in put h1 self ((node_at h1 self)\<lparr>parents := parents (node_at h1 self) @ [parent_node]\<rparr>))"

text \<open>\<^verbatim>\<open>add_child\<close>: \<^verbatim>\<open>child_node.parents.append(self); self.children.append(child_node)\<close>.\<close>

definition add_child :: "store \<Rightarrow> ref \<Rightarrow> ref \<Rightarrow> store" where
  "add_child h self child_node =
     (let h1 = put h child_node
                 ((node_at h child_node)\<lparr>parents := parents (node_at h child_node) @ [self]\<rparr>)
      in put h1 self ((node_at h1 self)\<lparr>children := children (node_at h1 self) @ [child_node]\<rparr>))"

definition create_parent :: "store \<Rightarrow> ref \<Rightarrow> string \<Rightarrow> ref \<times> store" where
  "create_parent h self parent_id =
     (case Node h parent_id of (parent_node, h1) \<Rightarrow> (parent_node, add_parent h1 self parent_node))"

definition create_child :: "store \<Rightarrow> ref \<Rightarrow> string \<Rightarrow> ref \<times> store" where
  "create_child h self child_id =
     (case Node h child_id of (child_node, h1) \<Rightarrow> (child_node, add_child h1 self child_node))"

text \<open>
  \<^verbatim>\<open>remove_parent\<close> and \<^verbatim>\<open>remove_child\<close>. \<^verbatim>\<open>list.remove(x)\<close> deletes the first
  occurrence of \<^verbatim>\<open>x\<close> and raises \<^verbatim>\<open>ValueError\<close> when there is none. The second
  \<^verbatim>\<open>remove\<close> runs after the first has already changed its list, so a failure there
  leaves the first change in place: the result is the error, if any, together with the
  store as the call leaves it. The argument \<open>None\<close> is Python's \<^verbatim>\<open>None\<close>, for which the
  method does nothing. (The method returns its argument; the model leaves that out.)
\<close>

definition remove_parent :: "store \<Rightarrow> ref \<Rightarrow> ref option \<Rightarrow> error option \<times> store" where
  "remove_parent h self parent_node =
     (case parent_node of
        None \<Rightarrow> (None, h)
      | Some p \<Rightarrow>
          if p \<notin> set (parents (node_at h self)) then (Some ValueError, h)
          else let h1 = put h self ((node_at h self)\<lparr>parents := remove1 p (parents (node_at h self))\<rparr>)
               in if self \<notin> set (children (node_at h1 p)) then (Some ValueError, h1)
                  else (None, put h1 p ((node_at h1 p)\<lparr>children := remove1 self (children (node_at h1 p))\<rparr>)))"

definition remove_child :: "store \<Rightarrow> ref \<Rightarrow> ref option \<Rightarrow> error option \<times> store" where
  "remove_child h self child_node =
     (case child_node of
        None \<Rightarrow> (None, h)
      | Some c \<Rightarrow>
          if c \<notin> set (children (node_at h self)) then (Some ValueError, h)
          else let h1 = put h self ((node_at h self)\<lparr>children := remove1 c (children (node_at h self))\<rparr>)
               in if self \<notin> set (parents (node_at h1 c)) then (Some ValueError, h1)
                  else (None, put h1 c ((node_at h1 c)\<lparr>parents := remove1 self (parents (node_at h1 c))\<rparr>)))"

text \<open>\<^verbatim>\<open>show_children\<close>, \<^verbatim>\<open>has_child\<close> and \<^verbatim>\<open>get_child\<close>. The scan of \<^verbatim>\<open>get_child\<close>
  does not stop at the first match: it returns the last child with the id, \<^verbatim>\<open>None\<close>
  when there is none. The id searched for is whatever the caller passes, a string or a
  value read from a catalog row; a node's id is a string and equals no integer.\<close>

definition show_children :: "store \<Rightarrow> ref \<Rightarrow> string list" where
  "show_children h self = map (\<lambda>c. node_id (node_at h c)) (children (node_at h self))"

definition show_parents :: "store \<Rightarrow> ref \<Rightarrow> string list" where
  "show_parents h self = map (\<lambda>p. node_id (node_at h p)) (parents (node_at h self))"

definition has_child :: "store \<Rightarrow> ref \<Rightarrow> string \<Rightarrow> bool" where
  "has_child h self child = (child \<in> set (show_children h self))"

definition has_parent :: "store \<Rightarrow> ref \<Rightarrow> string \<Rightarrow> bool" where
  "has_parent h self parent = (parent \<in> set (show_parents h self))"

fun scan_id :: "store \<Rightarrow> sql_value \<Rightarrow> ref option \<Rightarrow> ref list \<Rightarrow> ref option" where
  "scan_id h i found [] = found"
| "scan_id h i found (c # cs) =
     scan_id h i (if Str (node_id (node_at h c)) = i then Some c else found) cs"

definition get_child :: "store \<Rightarrow> ref \<Rightarrow> sql_value \<Rightarrow> ref option" where
  "get_child h self child_id = scan_id h child_id None (children (node_at h self))"

definition get_parent :: "store \<Rightarrow> ref \<Rightarrow> sql_value \<Rightarrow> ref option" where
  "get_parent h self parent_id = scan_id h parent_id None (parents (node_at h self))"

subsection \<open>\<^verbatim>\<open>DatabaseNode\<close>, \<^verbatim>\<open>TableNode\<close>, \<^verbatim>\<open>ColumnNode\<close>\<close>

text \<open>The wrappers of \<^verbatim>\<open>DatabaseNode\<close>.\<close>

definition add_table :: "store \<Rightarrow> ref \<Rightarrow> ref \<Rightarrow> store" where
  "add_table h self table_node = add_child h self table_node"

definition has_table :: "store \<Rightarrow> ref \<Rightarrow> string \<Rightarrow> bool" where
  "has_table h self table = has_child h self table"

definition get_table :: "store \<Rightarrow> ref \<Rightarrow> sql_value \<Rightarrow> ref option" where
  "get_table h self table = get_child h self table"

text \<open>\<^verbatim>\<open>TableNode\<close>. \<^verbatim>\<open>create_column\<close> links the new column by hand:
  \<^verbatim>\<open>column_node.parents.append(self); self.children.append(column_node)\<close>.\<close>

definition create_column :: "store \<Rightarrow> ref \<Rightarrow> string \<Rightarrow> ref \<times> store" where
  "create_column h self column =
     (case ColumnNode h column None None None of
        (column_node, h1) \<Rightarrow>
          let h2 = put h1 column_node
                     ((node_at h1 column_node)\<lparr>parents := parents (node_at h1 column_node) @ [self]\<rparr>)
          in (column_node,
              put h2 self ((node_at h2 self)\<lparr>children := children (node_at h2 self) @ [column_node]\<rparr>)))"

definition add_column :: "store \<Rightarrow> ref \<Rightarrow> ref \<Rightarrow> store" where
  "add_column h self column_node = add_child h self column_node"

definition remove_column :: "store \<Rightarrow> ref \<Rightarrow> ref option \<Rightarrow> error option \<times> store" where
  "remove_column h self column_node = remove_child h self column_node"

definition has_column :: "store \<Rightarrow> ref \<Rightarrow> string \<Rightarrow> bool" where
  "has_column h self column = has_child h self column"

definition get_column :: "store \<Rightarrow> ref \<Rightarrow> sql_value \<Rightarrow> ref option" where
  "get_column h self column = get_child h self column"

text \<open>\<^verbatim>\<open>get_foreign_keys\<close>: the loop over \<^verbatim>\<open>self.children\<close> that appends every column
  with \<^verbatim>\<open>column != self.primary_key\<close> and \<^verbatim>\<open>len(column.parents) > 1\<close>. A column is
  never equal to \<^verbatim>\<open>None\<close>.\<close>

fun foreign_keys_loop :: "store \<Rightarrow> ref \<Rightarrow> ref list \<Rightarrow> ref list \<Rightarrow> ref list" where
  "foreign_keys_loop h self foreign_keys [] = foreign_keys"
| "foreign_keys_loop h self foreign_keys (column # rest) =
     foreign_keys_loop h self
       (if Some column \<noteq> primary_key (node_at h self)
        then (if length (parents (node_at h column)) > 1 then foreign_keys @ [column]
              else foreign_keys)
        else foreign_keys)
       rest"

definition get_foreign_keys :: "store \<Rightarrow> ref \<Rightarrow> ref list" where
  "get_foreign_keys h self = foreign_keys_loop h self [] (children (node_at h self))"

text \<open>\<^verbatim>\<open>ColumnNode\<close>. \<^verbatim>\<open>create_table\<close> links the new table by hand:
  \<^verbatim>\<open>table_node.children.append(self); self.parents.append(table_node)\<close>.\<close>

definition column_create_table :: "store \<Rightarrow> ref \<Rightarrow> string \<Rightarrow> ref \<times> store" where
  "column_create_table h self table =
     (case TableNode h table of
        (table_node, h1) \<Rightarrow>
          let h2 = put h1 table_node
                     ((node_at h1 table_node)\<lparr>children := children (node_at h1 table_node) @ [self]\<rparr>)
          in (table_node,
              put h2 self ((node_at h2 self)\<lparr>parents := parents (node_at h2 self) @ [table_node]\<rparr>)))"

definition column_add_table :: "store \<Rightarrow> ref \<Rightarrow> ref \<Rightarrow> store" where
  "column_add_table h self table_node = add_parent h self table_node"

definition column_remove_table :: "store \<Rightarrow> ref \<Rightarrow> ref option \<Rightarrow> error option \<times> store" where
  "column_remove_table h self table = remove_parent h self table"

subsection \<open>The catalog backend\<close>

text \<open>
  \<^verbatim>\<open>MySQLConnectionHandler\<close> is not part of these sources; the module uses its
  \<^verbatim>\<open>database\<close> attribute and its \<^verbatim>\<open>execute_query\<close> method, which takes a statement
  and returns the result rows as dictionaries from field names to values. The handle is
  therefore a parameter: \<open>respond\<close> is what the catalog answers to a statement, and
  \<open>sent\<close> records the statements executed so far, in order.
\<close>

type_synonym row = "(string \<times> sql_value) list"

record sql_handle =
  database :: string
  respond :: "string \<Rightarrow> row list"
  sent :: "string list"

definition execute_query :: "sql_handle \<Rightarrow> string \<Rightarrow> row list \<times> sql_handle" where
  "execute_query s query = (respond s query, s\<lparr>sent := sent s @ [query]\<rparr>)"

text \<open>\<^verbatim>\<open>dict[key]\<close>: \<^verbatim>\<open>KeyError\<close> when the key is absent.\<close>

definition field :: "row \<Rightarrow> string \<Rightarrow> error + sql_value" where
  "field dict k = (case map_of dict k of None \<Rightarrow> Inl KeyError | Some v \<Rightarrow> Inr v)"

text \<open>\<^verbatim>\<open>sep.join(xs)\<close> and the apostrophe of the SQL literals.\<close>

fun join :: "string \<Rightarrow> string list \<Rightarrow> string" where
  "join sep [] = []"
| "join sep [x] = x"
| "join sep (x # y # ys) = x @ sep @ join sep (y # ys)"

definition apostrophe :: string where
  "apostrophe = [CHR 0x27]"

subsection \<open>\<^verbatim>\<open>setup_db_tree_webs\<close>\<close>

text \<open>
  The loop \<^verbatim>\<open>for parent in foreign_key_node.parents\<close>. Its body removes \<^verbatim>\<open>parent\<close>
  from the very list the loop runs over (\<^verbatim>\<open>parent.remove_column(foreign_key_node)\<close>
  ends in \<^verbatim>\<open>foreign_key_node.parents.remove(parent)\<close>). A Python \<^verbatim>\<open>for\<close> over a list
  keeps an index into the live list: each round reads the element at the index, if the
  list is that long by now, and moves the index on by one. The model does the same.
\<close>

function relink_parents :: "store \<Rightarrow> ref \<Rightarrow> ref \<Rightarrow> nat \<Rightarrow> error + store" where
  "relink_parents h primary_key_node foreign_key_node i =
     (if i < length (parents (node_at h foreign_key_node)) then
        (let parent = parents (node_at h foreign_key_node) ! i in
         if parent \<notin> set (parents (node_at h primary_key_node)) then
           (case remove_column (column_add_table h primary_key_node parent) parent
                   (Some foreign_key_node) of
              (Some e, h') \<Rightarrow> Inl e
            | (None, h') \<Rightarrow> relink_parents h' primary_key_node foreign_key_node (Suc i))
         else relink_parents h primary_key_node foreign_key_node (Suc i))
      else Inr h)"
  by pat_completeness auto
termination
proof (relation "measure (\<lambda>(h, pk, fk, i). length (parents (node_at h fk)) - i)", goal_cases)
  case 1
  show ?case by simp
next
  case (2 h pk fk i parent x h')
  let ?h1 = "column_add_table h pk parent"
  from 2 have rm: "remove_child ?h1 parent (Some fk) = (None, h')"
    by (simp add: remove_column_def)
  have grow: "length (parents (node_at ?h1 fk)) \<le> Suc (length (parents (node_at h fk)))"
    by (simp add: column_add_table_def add_parent_def put_def node_at_def Let_def nth_list_update)
  from rm have mem: "parent \<in> set (parents (node_at ?h1 fk))"
    by (auto simp add: remove_child_def put_def node_at_def Let_def nth_list_update
        split: if_splits)
  then have "fk < length ?h1"
    by (auto simp add: node_at_def blank_def split: if_splits)
  with rm have "parents (node_at h' fk) = remove1 parent (parents (node_at ?h1 fk))"
    by (auto simp add: remove_child_def put_def node_at_def Let_def nth_list_update
        split: if_splits)
  with mem have "length (parents (node_at h' fk)) < length (parents (node_at ?h1 fk))"
    using length_pos_if_in_set [OF mem] by (simp add: length_remove1)
  with grow 2 show ?case by simp
next
  case (3 h pk fk i parent)
  then show ?case by simp
qed

text \<open>The body of the loop \<^verbatim>\<open>for dict in foreign_key_results\<close>, for the table \<open>table\<close>
  of the outer loop. Python evaluates the statements in this order, and each lookup on
  \<^verbatim>\<open>None\<close> raises \<^verbatim>\<open>AttributeError\<close>.\<close>

definition link_foreign_key :: "store \<Rightarrow> ref \<Rightarrow> ref \<Rightarrow> row \<Rightarrow> error + store" where
  "link_foreign_key h db_node table dict =
     (case field dict ''COLUMN_NAME'' of
        Inl e \<Rightarrow> Inl e
      | Inr column_name \<Rightarrow>
     (let primary_key_node = get_column h table column_name in
      case field dict ''TABLE_NAME'' of
        Inl e \<Rightarrow> Inl e
      | Inr table_name \<Rightarrow>
     (case get_table h db_node table_name of
        None \<Rightarrow> Inl AttributeError
      | Some ref_table \<Rightarrow>
     (let foreign_key_node = get_column h ref_table column_name in
      case primary_key_node of
        None \<Rightarrow> Inl AttributeError
      | Some pk \<Rightarrow>
     (let h1 = column_add_table h pk ref_table;
          h2 = (if foreign_key_node = primary_key (node_at h1 ref_table)
                then put h1 ref_table ((node_at h1 ref_table)\<lparr>primary_key := Some pk\<rparr>)
                else h1)
      in case foreign_key_node of
        None \<Rightarrow> Inl AttributeError
      | Some fk \<Rightarrow>
     (case relink_parents h2 pk fk 0 of
        Inl e \<Rightarrow> Inl e
      | Inr h3 \<Rightarrow>
     (case remove_column h3 ref_table (Some fk) of
        (Some e, h4) \<Rightarrow> Inl e
      | (None, h4) \<Rightarrow> Inr h4)))))))"

fun link_foreign_keys :: "store \<Rightarrow> ref \<Rightarrow> ref \<Rightarrow> row list \<Rightarrow> error + store" where
  "link_foreign_keys h db_node table [] = Inr h"
| "link_foreign_keys h db_node table (dict # rest) =
     (case link_foreign_key h db_node table dict of
        Inl e \<Rightarrow> Inl e
      | Inr h' \<Rightarrow> link_foreign_keys h' db_node table rest)"

definition foreign_key_query :: "string \<Rightarrow> string \<Rightarrow> string" where
  "foreign_key_query db table_id =
     ''SELECT TABLE_NAME, COLUMN_NAME, CONSTRAINT_NAME, '' @
     ''REFERENCED_TABLE_NAME, REFERENCED_COLUMN_NAME '' @
     ''FROM INFORMATION_SCHEMA.KEY_COLUMN_USAGE '' @
     ''WHERE REFERENCED_TABLE_SCHEMA='' @ apostrophe @ db @ apostrophe @ '' AND '' @
     ''REFERENCED_TABLE_NAME='' @ apostrophe @ table_id @ apostrophe"

text \<open>The loop \<^verbatim>\<open>for table in db_node.children\<close>. The tables are the children the
  database node has when the loop starts: the body relinks columns and tables and
  leaves the list of the database node alone. An empty result, \<^verbatim>\<open>()\<close> or not, has no
  rows to loop over.\<close>

fun webs_loop :: "sql_handle \<Rightarrow> store \<Rightarrow> ref \<Rightarrow> ref list \<Rightarrow> (error + store) \<times> sql_handle" where
  "webs_loop s h db_node [] = (Inr h, s)"
| "webs_loop s h db_node (table # rest) =
     (case execute_query s (foreign_key_query (database s) (node_id (node_at h table))) of
        (foreign_key_results, s') \<Rightarrow>
          (case link_foreign_keys h db_node table foreign_key_results of
             Inl e \<Rightarrow> (Inl e, s')
           | Inr h' \<Rightarrow> webs_loop s' h' db_node rest))"

definition setup_db_tree_webs :: "sql_handle \<Rightarrow> store \<Rightarrow> ref \<Rightarrow> (error + store) \<times> sql_handle" where
  "setup_db_tree_webs s h db_node = webs_loop s h db_node (children (node_at h db_node))"

text \<open>
  The constraints of a run, in the order the two loops process them: every table of the
  database, paired with every row the catalog reports for it. \<open>run_constraints\<close> is the
  body of the inner loop applied along such a list, up to the first error; the two
  nested loops of \<^verbatim>\<open>setup_db_tree_webs\<close> are \<open>run_constraints\<close> on \<open>constraints\<close>, since the
  body changes no id and the tables are those the database node has at the start.
\<close>

definition constraints :: "sql_handle \<Rightarrow> store \<Rightarrow> ref \<Rightarrow> (ref \<times> row) list" where
  "constraints s h db_node =
     concat (map (\<lambda>table. map (\<lambda>dict. (table, dict))
                   (respond s (foreign_key_query (database s) (node_id (node_at h table)))))
               (children (node_at h db_node)))"

fun run_constraints :: "store \<Rightarrow> ref \<Rightarrow> (ref \<times> row) list \<Rightarrow> error + store" where
  "run_constraints h db_node [] = Inr h"
| "run_constraints h db_node (c # rest) =
     (case link_foreign_key h db_node (fst c) (snd c) of
        Inl e \<Rightarrow> Inl e
      | Inr h' \<Rightarrow> run_constraints h' db_node rest)"

text \<open>What the body of the loop looks up for a constraint \<open>(table, dict)\<close>: the column
  name of the row, the referencing table \<^verbatim>\<open>ref_table\<close>, the column \<^verbatim>\<open>primary_key_node\<close>
  of \<open>table\<close> and the column \<^verbatim>\<open>foreign_key_node\<close> of the referencing table; \<open>None\<close> when
  one of the lookups fails.\<close>

datatype key_link =
  KeyLink (link_column: sql_value) (link_table: ref) (link_primary: ref) (link_foreign: ref)

definition resolve :: "store \<Rightarrow> ref \<Rightarrow> ref \<times> row \<Rightarrow> key_link option" where
  "resolve h db_node c =
     (case field (snd c) ''COLUMN_NAME'' of
        Inl e \<Rightarrow> None
      | Inr column_name \<Rightarrow>
     (case field (snd c) ''TABLE_NAME'' of
        Inl e \<Rightarrow> None
      | Inr table_name \<Rightarrow>
     (case get_table h db_node table_name of
        None \<Rightarrow> None
      | Some ref_table \<Rightarrow>
     (case get_column h (fst c) column_name of
        None \<Rightarrow> None
      | Some pk \<Rightarrow>
     (case get_column h ref_table column_name of
        None \<Rightarrow> None
      | Some fk \<Rightarrow> Some (KeyLink column_name ref_table pk fk))))))"

text \<open>
  A schema without chains of foreign keys, on the graph as \<^verbatim>\<open>setup_db_tree_leaves\<close>
  leaves it: every constraint the catalog reports resolves, no two constraints have
  the same referencing column, no referencing column is itself referenced, and every
  referencing column has its table as only parent.
\<close>

definition unchained :: "sql_handle \<Rightarrow> store \<Rightarrow> ref \<Rightarrow> bool" where
  "unchained s h db_node \<longleftrightarrow>
     (let ks = map (resolve h db_node) (constraints s h db_node) in
      None \<notin> set ks \<and>
      distinct (map (\<lambda>k. link_foreign (the k)) ks) \<and>
      (\<forall>k \<in> set ks. \<forall>k' \<in> set ks. link_primary (the k) \<noteq> link_foreign (the k')) \<and>
      (\<forall>k \<in> set ks. parents (node_at h (link_foreign (the k))) = [link_table (the k)]))"

text \<open>The store \<open>h'\<close> differs from \<open>h\<close> by one relinked constraint: the referencing
  table lists the referenced column in the place of its own, which has no parent left.\<close>

definition relinked :: "store \<Rightarrow> store \<Rightarrow> key_link \<Rightarrow> bool" where
  "relinked h h' k \<longleftrightarrow>
     (\<forall>x. node_id (node_at h' x) = node_id (node_at h x)) \<and>
     (\<forall>x. children (node_at h' x) =
            (if x = link_table k
             then remove1 (link_foreign k) (children (node_at h (link_table k))) @ [link_primary k]
             else children (node_at h x))) \<and>
     (\<forall>x. parents (node_at h' x) =
            (if x = link_primary k then parents (node_at h (link_primary k)) @ [link_table k]
             else if x = link_foreign k then []
             else parents (node_at h x)))"

text \<open>The constraint \<open>k\<close> on the referenced table \<open>table\<close> is unified: both tables resolve
  the column name to the referenced column, which has both as parents, and the
  referencing table no longer lists its own column.\<close>

definition unified :: "store \<Rightarrow> ref \<Rightarrow> key_link \<Rightarrow> bool" where
  "unified h table k \<longleftrightarrow>
     get_column h table (link_column k) = Some (link_primary k) \<and>
     table \<in> set (parents (node_at h (link_primary k))) \<and>
     link_table k \<in> set (parents (node_at h (link_primary k))) \<and>
     get_column h (link_table k) (link_column k) = Some (link_primary k) \<and>
     link_foreign k \<notin> set (children (node_at h (link_table k)))"

subsection \<open>\<^verbatim>\<open>setup_grouping_options\<close>\<close>

text \<open>\<^verbatim>\<open>ColumnNode.parse_type\<close>: \<^verbatim>\<open>self.type.split("(")[0].split(" ")[0]\<close>, the type up to
  its first parenthesis and then up to its first blank. A column without a type
  (\<^verbatim>\<open>None\<close>) has no \<^verbatim>\<open>split\<close>.\<close>

definition parse_type :: "store \<Rightarrow> ref \<Rightarrow> error + string" where
  "parse_type h self =
     (case col_type (node_at h self) of
        None \<Rightarrow> Inl AttributeError
      | Some ty \<Rightarrow> Inr (takeWhile (\<lambda>c. c \<noteq> CHR '' '') (takeWhile (\<lambda>c. c \<noteq> CHR ''('') ty)))"

text \<open>\<^verbatim>\<open>re.findall("[1234567890]+", column.type)[0]\<close>: the first maximal run of digits
  of the raw type, \<^verbatim>\<open>IndexError\<close> when it has no digit; and \<^verbatim>\<open>int\<close> of that run.\<close>

definition is_digit :: "char \<Rightarrow> bool" where
  "is_digit c = (c \<in> set ''1234567890'')"

definition first_digits :: "string \<Rightarrow> error + string" where
  "first_digits ty =
     (case takeWhile is_digit (dropWhile (\<lambda>c. \<not> is_digit c) ty) of
        [] \<Rightarrow> Inl IndexError
      | d # ds \<Rightarrow> Inr (d # ds))"

definition int_of_digits :: "string \<Rightarrow> int" where
  "int_of_digits ds = foldl (\<lambda>n c. 10 * n + (of_char c - 48)) 0 ds"

definition limited_sets :: "string list" where
  "limited_sets = [''varchar_sm'', ''enum'', ''char'', ''tinyint'']"

definition str_sets :: "string list" where
  "str_sets = [''blob'', ''mediumblob'', ''varchar'', ''varchar_sm'']"

definition num_sets :: "string list" where
  "num_sets = [''int'', ''decimal'', ''mediumint'', ''float'', ''datetime'', ''double'']"

definition set_group :: "store \<Rightarrow> ref \<Rightarrow> string \<Rightarrow> store" where
  "set_group h column g = put h column ((node_at h column)\<lparr>group := g\<rparr>)"

definition count_query :: "string \<Rightarrow> string \<Rightarrow> string" where
  "count_query column_id table_id =
     ''SELECT COUNT(DISTINCT '' @ column_id @ '') FROM '' @ table_id"

definition count_field :: "string \<Rightarrow> string" where
  "count_field column_id = ''COUNT(DISTINCT '' @ column_id @ '')''"

text \<open>The type the grouping works with: \<^verbatim>\<open>parse_type()\<close>, with \<^verbatim>\<open>varchar\<close> of a
  declared size of at most 15 renamed \<^verbatim>\<open>varchar_sm\<close>.\<close>

definition grouping_type :: "store \<Rightarrow> ref \<Rightarrow> error + string" where
  "grouping_type h column =
     (case parse_type h column of
        Inl e \<Rightarrow> Inl e
      | Inr ty \<Rightarrow>
          if ty = ''varchar'' then
            (case first_digits (the (col_type (node_at h column))) of
               Inl e \<Rightarrow> Inl e
             | Inr ds \<Rightarrow> Inr (if int_of_digits ds \<le> 15 then ''varchar_sm'' else ty))
          else Inr ty)"

text \<open>The columns the specification sends the cardinality probe for: a normalized type
  \<^verbatim>\<open>enum\<close>, \<^verbatim>\<open>char\<close> or \<^verbatim>\<open>tinyint\<close>, or \<^verbatim>\<open>varchar\<close> with a declared size of at most 15.\<close>

definition probed :: "store \<Rightarrow> ref \<Rightarrow> bool" where
  "probed h column \<longleftrightarrow>
     (case col_type (node_at h column) of
        None \<Rightarrow> False
      | Some raw \<Rightarrow>
          (case parse_type h column of
             Inl e \<Rightarrow> False
           | Inr ty \<Rightarrow>
               ty = ''enum'' \<or> ty = ''char'' \<or> ty = ''tinyint'' \<or>
               (ty = ''varchar'' \<and>
                (case first_digits raw of Inl e \<Rightarrow> False | Inr ds \<Rightarrow> int_of_digits ds \<le> 15))))"

text \<open>The body of the inner loop, for one column of one table. Comparing a string with
  \<^verbatim>\<open>150\<close> raises \<^verbatim>\<open>TypeError\<close>; \<^verbatim>\<open>execute_query(query)[0]\<close> raises \<^verbatim>\<open>IndexError\<close> on an
  empty result.\<close>

definition group_column ::
  "sql_handle \<Rightarrow> store \<Rightarrow> ref \<Rightarrow> ref \<Rightarrow> (error + store) \<times> sql_handle" where
  "group_column s h table column =
     (case grouping_type h column of
        Inl e \<Rightarrow> (Inl e, s)
      | Inr ty \<Rightarrow>
     (let h1 = (if ty \<in> set str_sets then set_group h column ''str_set''
                else if ty \<in> set num_sets then set_group h column ''num_set''
                else h)
      in if ty \<in> set limited_sets then
           (case execute_query s
                    (count_query (node_id (node_at h1 column)) (node_id (node_at h1 table))) of
              (results, s') \<Rightarrow>
                (case results of
                   [] \<Rightarrow> (Inl IndexError, s')
                 | results_dict # _ \<Rightarrow>
                     (case field results_dict (count_field (node_id (node_at h1 column))) of
                        Inl e \<Rightarrow> (Inl e, s')
                      | Inr (Str v) \<Rightarrow> (Inl TypeError, s')
                      | Inr (Num n) \<Rightarrow>
                          (Inr (if n < 150 then set_group h1 column ''limited_set'' else h1), s'))))
         else (Inr h1, s)))"

fun group_columns ::
  "sql_handle \<Rightarrow> store \<Rightarrow> ref \<Rightarrow> ref list \<Rightarrow> (error + store) \<times> sql_handle" where
  "group_columns s h table [] = (Inr h, s)"
| "group_columns s h table (column # rest) =
     (case group_column s h table column of
        (Inl e, s') \<Rightarrow> (Inl e, s')
      | (Inr h', s') \<Rightarrow> group_columns s' h' table rest)"

fun group_tables ::
  "sql_handle \<Rightarrow> store \<Rightarrow> ref list \<Rightarrow> (error + store) \<times> sql_handle" where
  "group_tables s h [] = (Inr h, s)"
| "group_tables s h (table # rest) =
     (case group_columns s h table (children (node_at h table)) of
        (Inl e, s') \<Rightarrow> (Inl e, s')
      | (Inr h', s') \<Rightarrow> group_tables s' h' rest)"

definition setup_grouping_options ::
  "sql_handle \<Rightarrow> store \<Rightarrow> ref \<Rightarrow> (error + store) \<times> sql_handle" where
  "setup_grouping_options s h db_node = group_tables s h (children (node_at h db_node))"

text \<open>
  The visits of the classifier, in order: every table of the database with every one of
  its children. \<open>run_visits\<close> is the loop body applied along a list of visits, up to
  the first error; the two nested loops of \<^verbatim>\<open>setup_grouping_options\<close> are \<open>run_visits\<close>
  on \<open>visits\<close>, since the body changes no list of children.
\<close>

definition visits :: "store \<Rightarrow> ref \<Rightarrow> (ref \<times> ref) list" where
  "visits h db_node =
     concat (map (\<lambda>table. map (\<lambda>column. (table, column)) (children (node_at h table)))
               (children (node_at h db_node)))"

fun run_visits ::
  "sql_handle \<Rightarrow> store \<Rightarrow> (ref \<times> ref) list \<Rightarrow> (error + store) \<times> sql_handle" where
  "run_visits s h [] = (Inr h, s)"
| "run_visits s h (v # vs) =
     (case group_column s h (fst v) (snd v) of
        (Inl e, s') \<Rightarrow> (Inl e, s')
      | (Inr h', s') \<Rightarrow> run_visits s' h' vs)"

text \<open>A visit sends the probe when the type the grouping works with is one of
  \<^verbatim>\<open>limited_sets\<close>; \<open>probe_statement\<close> is the statement it sends.\<close>

definition sends_probe :: "store \<Rightarrow> ref \<Rightarrow> bool" where
  "sends_probe h column \<longleftrightarrow>
     (case grouping_type h column of Inl e \<Rightarrow> False | Inr ty \<Rightarrow> ty \<in> set limited_sets)"

definition probe_statement :: "store \<Rightarrow> ref \<times> ref \<Rightarrow> string" where
  "probe_statement h v = count_query (node_id (node_at h (snd v))) (node_id (node_at h (fst v)))"

text \<open>A visit the classifier can complete: the column has a type (with a size when it
  is a \<^verbatim>\<open>varchar\<close>), and when the visit sends the probe the backend answers it with a
  row that holds an integer count.\<close>

definition answered :: "sql_handle \<Rightarrow> store \<Rightarrow> ref \<times> ref \<Rightarrow> bool" where
  "answered s h v \<longleftrightarrow>
     (case grouping_type h (snd v) of
        Inl e \<Rightarrow> False
      | Inr ty \<Rightarrow>
          ty \<notin> set limited_sets \<or>
          (case respond s (probe_statement h v) of
             [] \<Rightarrow> False
           | results_dict # rest \<Rightarrow>
               (case map_of results_dict (count_field (node_id (node_at h (snd v)))) of
                  None \<Rightarrow> False
                | Some (Str x) \<Rightarrow> False
                | Some (Num n) \<Rightarrow> True)))"

text \<open>Two stores that differ in the groups of their nodes at most.\<close>

definition regrouped :: "store \<Rightarrow> store \<Rightarrow> bool" where
  "regrouped h h' \<longleftrightarrow>
     length h' = length h \<and> (\<forall>x. node_at h' x = (node_at h x)\<lparr>group := group (node_at h' x)\<rparr>)"

subsection \<open>\<^verbatim>\<open>DatabaseTree.find_path\<close>\<close>

text \<open>
  A path is a list of hops \<^verbatim>\<open>[table.id, link.id]\<close>, each a list of strings. The loop
  that fills \<^verbatim>\<open>previous_tables\<close> reads \<^verbatim>\<open>previous[0]\<close> of every hop of the path and
  raises \<^verbatim>\<open>IndexError\<close> on an empty hop.
\<close>

type_synonym hop = "string list"

definition previous_tables :: "hop list \<Rightarrow> error + string list" where
  "previous_tables current_path =
     (if [] \<in> set current_path then Inl IndexError else Inr (map hd current_path))"

text \<open>\<^verbatim>\<open>table_links\<close>: the foreign keys of the table, with its primary key put in front
  when that has more than one parent. \<^verbatim>\<open>curr_table.primary_key.parents\<close> raises
  \<^verbatim>\<open>AttributeError\<close> when the primary key is \<^verbatim>\<open>None\<close>.\<close>

definition table_links :: "store \<Rightarrow> ref \<Rightarrow> error + ref list" where
  "table_links h curr_table =
     (let links = get_foreign_keys h curr_table in
      case primary_key (node_at h curr_table) of
        None \<Rightarrow> Inl AttributeError
      | Some pk \<Rightarrow> Inr (if length (parents (node_at h pk)) > 1 then pk # links else links))"

text \<open>
  \<^verbatim>\<open>find_path\<close> with its two loops: \<open>links_loop\<close> is \<^verbatim>\<open>for link in table_links\<close> and
  \<open>tables_loop\<close> is \<^verbatim>\<open>for table in link.parents\<close>; a \<^verbatim>\<open>return\<close> inside a loop ends the
  call, and falling off the end returns \<^verbatim>\<open>None\<close>. The function only reads the graph.
  \<^verbatim>\<open>previous_tables\<close> is computed once on entry; the inner loop reads it off the same,
  unchanged \<^verbatim>\<open>current_path\<close>. \<^verbatim>\<open>path[-1]\<close> raises \<^verbatim>\<open>IndexError\<close> on an empty path and
  \<^verbatim>\<open>(path[-1])[0]\<close> on an empty hop.
\<close>

function find_path :: "store \<Rightarrow> ref \<Rightarrow> ref \<Rightarrow> hop list option \<Rightarrow> error + hop list option"
  and links_loop :: "store \<Rightarrow> ref \<Rightarrow> ref \<Rightarrow> hop list \<Rightarrow> ref list \<Rightarrow> error + hop list option"
  and tables_loop ::
    "store \<Rightarrow> ref \<Rightarrow> ref \<Rightarrow> hop list \<Rightarrow> ref \<Rightarrow> ref list \<Rightarrow> error + hop list option"
where
  "find_path h curr_table target_table current_path =
     (let current_path = (case current_path of None \<Rightarrow> [] | Some p \<Rightarrow> p) in
      case previous_tables current_path of
        Inl e \<Rightarrow> Inl e
      | Inr previous \<Rightarrow>
          if curr_table = target_table then Inr (Some current_path)
          else (case table_links h curr_table of
                  Inl e \<Rightarrow> Inl e
                | Inr links \<Rightarrow> links_loop h curr_table target_table current_path links))"
| "links_loop h curr_table target_table current_path [] = Inr None"
| "links_loop h curr_table target_table current_path (link # rest) =
     (if target_table \<in> set (parents (node_at h link))
      then Inr (Some (current_path @
                  [[node_id (node_at h target_table), node_id (node_at h link)]]))
      else (case tables_loop h curr_table target_table current_path link
                   (parents (node_at h link)) of
              Inl e \<Rightarrow> Inl e
            | Inr (Some path) \<Rightarrow> Inr (Some path)
            | Inr None \<Rightarrow> links_loop h curr_table target_table current_path rest))"
| "tables_loop h curr_table target_table current_path link [] = Inr None"
| "tables_loop h curr_table target_table current_path link (table # rest) =
     (case previous_tables current_path of
        Inl e \<Rightarrow> Inl e
      | Inr previous \<Rightarrow>
          if node_id (node_at h table) \<notin> set previous \<and> table \<noteq> curr_table then
            (case find_path h table target_table
                    (Some (current_path @
                       [[node_id (node_at h table), node_id (node_at h link)]])) of
               Inl e \<Rightarrow> Inl e
             | Inr None \<Rightarrow> tables_loop h curr_table target_table current_path link rest
             | Inr (Some path) \<Rightarrow>
                 (case path of
                    [] \<Rightarrow> Inl IndexError
                  | _ # _ \<Rightarrow>
                      (case last path of
                         [] \<Rightarrow> Inl IndexError
                       | t # _ \<Rightarrow>
                           if t = node_id (node_at h target_table) then Inr (Some path)
                           else tables_loop h curr_table target_table current_path link rest)))
          else tables_loop h curr_table target_table current_path link rest)"
  by pat_completeness auto
termination
proof (relation "inv_image (less_than <*lex*> less_than <*lex*> less_than)
    (\<lambda>x. case x of
       Inl (h, c, t, p) \<Rightarrow>
         (card (insert (node_id blank) (node_id ` set h) -
                set (map hd (case p of None \<Rightarrow> [] | Some q \<Rightarrow> q))), 2::nat, 0::nat)
     | Inr (Inl (h, c, t, p, ls)) \<Rightarrow>
         (card (insert (node_id blank) (node_id ` set h) - set (map hd p)), 1, length ls)
     | Inr (Inr (h, c, t, p, l, ts)) \<Rightarrow>
         (card (insert (node_id blank) (node_id ` set h) - set (map hd p)), 0, length ts))",
    simp_all, goal_cases)
  case 1
  show ?case by (intro wf_inv_image wf_lex_prod wf_less_than)
next
  case (2 h curr_table current_path link table b)
  let ?U = "insert (node_id blank) (node_id ` set h)"
  let ?t = "node_id (node_at h table)"
  from 2 have new: "?t \<notin> hd ` set current_path"
    by (auto simp add: previous_tables_def split: if_splits)
  have known: "?t \<in> ?U"
    by (simp add: node_at_def)
  have eq: "hd ` {x. x = [?t, node_id (node_at h link)] \<or> x \<in> set current_path} =
            insert ?t (hd ` set current_path)"
  proof -
    have "{x. x = [?t, node_id (node_at h link)] \<or> x \<in> set current_path} =
          insert [?t, node_id (node_at h link)] (set current_path)"
      by blast
    then show ?thesis by simp
  qed
  have "?U - insert ?t (hd ` set current_path) \<subset> ?U - hd ` set current_path"
    using new known by blast
  then show ?case
    unfolding eq by (intro psubset_card_mono) simp_all
qed

text \<open>The candidate links as the specification words them: the child columns with more
  than one parent that are not the primary key, in child order, with the primary key in
  front when it has more than one parent.\<close>

definition candidate_links :: "store \<Rightarrow> ref \<Rightarrow> ref \<Rightarrow> ref list" where
  "candidate_links h table pk =
     (if length (parents (node_at h pk)) > 1 then [pk] else []) @
     filter (\<lambda>c. length (parents (node_at h c)) > 1 \<and> c \<noteq> pk) (children (node_at h table))"

text \<open>
  Chains of shared-key columns. A link of a table is a column with more than one parent
  that is a child of the table or its primary key; one hop leads from the table over a
  link to a parent of the link; \<open>reaches h a b\<close> when a chain of hops leads from \<open>a\<close>
  to \<open>b\<close>.
\<close>

definition link_of :: "store \<Rightarrow> ref \<Rightarrow> ref \<Rightarrow> bool" where
  "link_of h t l \<longleftrightarrow>
     (l \<in> set (children (node_at h t)) \<or> primary_key (node_at h t) = Some l) \<and>
     length (parents (node_at h l)) > 1"

inductive reaches :: "store \<Rightarrow> ref \<Rightarrow> ref \<Rightarrow> bool" for h :: store and a :: ref where
  start: "reaches h a a"
| hop: "reaches h a t \<Longrightarrow> link_of h t l \<Longrightarrow> u \<in> set (parents (node_at h l)) \<Longrightarrow> reaches h a u"

text \<open>The searches the amended C6 is about: the target is not reached from the start,
  and every table that is reached has its primary key set.\<close>

definition searchable :: "store \<Rightarrow> ref \<Rightarrow> ref \<Rightarrow> bool" where
  "searchable h a b \<longleftrightarrow>
     \<not> reaches h a b \<and> (\<forall>t. reaches h a t \<longrightarrow> primary_key (node_at h t) \<noteq> None)"

subsection \<open>\<^verbatim>\<open>DatabaseTree.build_values\<close>\<close>

text \<open>The loop \<^verbatim>\<open>for result in ...: values.append(result[column])\<close>.\<close>

fun collect_column :: "string \<Rightarrow> row list \<Rightarrow> error + sql_value list" where
  "collect_column column [] = Inr []"
| "collect_column column (result # rest) =
     (case field result column of
        Inl e \<Rightarrow> Inl e
      | Inr v \<Rightarrow>
          (case collect_column column rest of
             Inl e \<Rightarrow> Inl e
           | Inr vs \<Rightarrow> Inr (v # vs)))"

text \<open>\<^verbatim>\<open>f"{key} IN ('" + "','".join(values) + "')"\<close>.\<close>

definition in_clause :: "string \<Rightarrow> string list \<Rightarrow> string" where
  "in_clause k vals =
     k @ '' IN ('' @ apostrophe @ join (apostrophe @ '','' @ apostrophe) vals @ apostrophe @ '')''"

text \<open>
  \<^verbatim>\<open>build_values(table, column, values_column, queries, values)\<close> on the tree with
  root \<open>db_node\<close> and handle \<open>s\<close>. An empty list is false in a Python condition. With
  values and no \<^verbatim>\<open>values_column\<close> the statement reads \<^verbatim>\<open>table_node.primary_key.id\<close>,
  which raises \<^verbatim>\<open>AttributeError\<close> for a table without primary key.
\<close>

definition build_values ::
  "sql_handle \<Rightarrow> store \<Rightarrow> ref \<Rightarrow> string \<Rightarrow> string \<Rightarrow> string option \<Rightarrow> string list \<Rightarrow> string list
     \<Rightarrow> (error + sql_value list) \<times> sql_handle" where
  "build_values s h db_node table column values_column queries vals =
     (case get_table h db_node (Str table) of
        None \<Rightarrow> (Inl ValueError, s)
      | Some table_node \<Rightarrow>
          if \<not> has_column h table_node column then (Inl ValueError, s)
          else
            (let query = ''SELECT '' @ column @ '' FROM '' @ table;
                 query = (if queries \<noteq> [] \<or> vals \<noteq> [] then query @ '' WHERE '' else query);
                 query = (if queries \<noteq> []
                          then (let query = query @ join '' and '' queries
                                in if vals \<noteq> [] then query @ '' and '' else query)
                          else query)
             in case (if vals \<noteq> [] \<and> values_column = None then
                        (case primary_key (node_at h table_node) of
                           None \<Rightarrow> Inl AttributeError
                         | Some pk \<Rightarrow> Inr (query @ in_clause (node_id (node_at h pk)) vals))
                      else if vals \<noteq> [] \<and> values_column \<noteq> None then
                        Inr (query @ in_clause (the values_column) vals)
                      else Inr query) of
                  Inl e \<Rightarrow> (Inl e, s)
                | Inr query \<Rightarrow>
                    (case execute_query s query of
                       (results, s') \<Rightarrow> (collect_column column results, s'))))"

text \<open>The statement as the specification words it: the \<^verbatim>\<open>SELECT\<close>, then, when there is a
  condition or a value, \<^verbatim>\<open>WHERE\<close> and the conjuncts joined by \<^verbatim>\<open>and\<close>; the conjuncts are
  the conditions as they are and, when there are values, one containment test
  \<^verbatim>\<open>K IN ('v1','v2',...)\<close> over the quoted values.\<close>

definition containment_test :: "string \<Rightarrow> string list \<Rightarrow> string" where
  "containment_test k vals =
     k @ '' IN ('' @ join '','' (map (\<lambda>v. apostrophe @ v @ apostrophe) vals) @ '')''"

definition select_statement :: "string \<Rightarrow> string \<Rightarrow> string \<Rightarrow> string list \<Rightarrow> string list \<Rightarrow> string" where
  "select_statement table column k queries vals =
     ''SELECT '' @ column @ '' FROM '' @ table @
     (if queries = [] \<and> vals = [] then []
      else '' WHERE '' @
           join '' and '' (queries @ (if vals = [] then [] else [containment_test k vals])))"

subsection \<open>Graphs built through the linking operations\<close>

text \<open>
  The stores a program can build when it creates nodes with the constructors and links
  or unlinks them only through the methods above. A method is called on an existing
  object with existing objects (or \<^verbatim>\<open>None\<close>) as arguments. A failed \<^verbatim>\<open>remove\<close> is
  included with the store it leaves behind, as for a caller that catches the exception.
\<close>

inductive built :: "store \<Rightarrow> bool" where
  b_empty: "built []"
| b_Node: "built h \<Longrightarrow> built (snd (Node h i))"
| b_TableNode: "built h \<Longrightarrow> built (snd (TableNode h i))"
| b_ColumnNode: "built h \<Longrightarrow> built (snd (ColumnNode h i ty nl k))"
| b_add_parent: "built h \<Longrightarrow> v < length h \<Longrightarrow> p < length h \<Longrightarrow> built (add_parent h v p)"
| b_add_child: "built h \<Longrightarrow> v < length h \<Longrightarrow> c < length h \<Longrightarrow> built (add_child h v c)"
| b_create_parent: "built h \<Longrightarrow> v < length h \<Longrightarrow> built (snd (create_parent h v i))"
| b_create_child: "built h \<Longrightarrow> v < length h \<Longrightarrow> built (snd (create_child h v i))"
| b_create_column: "built h \<Longrightarrow> v < length h \<Longrightarrow> built (snd (create_column h v i))"
| b_create_table: "built h \<Longrightarrow> v < length h \<Longrightarrow> built (snd (column_create_table h v i))"
| b_remove_parent: "built h \<Longrightarrow> v < length h \<Longrightarrow> (case po of None \<Rightarrow> True | Some p \<Rightarrow> p < length h)
     \<Longrightarrow> built (snd (remove_parent h v po))"
| b_remove_child: "built h \<Longrightarrow> v < length h \<Longrightarrow> (case co of None \<Rightarrow> True | Some c \<Rightarrow> c < length h)
     \<Longrightarrow> built (snd (remove_child h v co))"

text \<open>Every reference stored in a node denotes an allocated node.\<close>

definition closed :: "store \<Rightarrow> bool" where
  "closed h \<longleftrightarrow>
     (\<forall>v < length h. \<forall>w \<in> set (parents (node_at h v)) \<union> set (children (node_at h v)). w < length h)"

text \<open>An edge is stored as often on its child's side as on its parent's side.\<close>

definition paired :: "store \<Rightarrow> bool" where
  "paired h \<longleftrightarrow>
     (\<forall>v w. count_list (children (node_at h v)) w = count_list (parents (node_at h w)) v)"

text \<open>The two together: the graphs the linking operations keep well formed.\<close>

definition linked :: "store \<Rightarrow> bool" where
  "linked h \<longleftrightarrow> closed h \<and> paired h"

subsection \<open>The schema of the specification's scenario\<close>

text \<open>
  Tables \<^verbatim>\<open>phage(PhageID PK)\<close> and \<^verbatim>\<open>gene(GeneID PK, PhageID FK -> phage.PhageID)\<close> in a
  database \<^verbatim>\<open>Actino\<close>, with a third table \<^verbatim>\<open>version(Version)\<close> that has no primary key
  and takes part in no foreign key: the graph as \<^verbatim>\<open>setup_db_tree_leaves\<close> leaves it
  (node 0 is the database, 1, 2 and 6 the tables, the others the columns), the graph
  after \<^verbatim>\<open>setup_db_tree_webs\<close>, and a catalog that reports the one foreign key.
\<close>

definition table_record :: "string \<Rightarrow> ref list \<Rightarrow> ref list \<Rightarrow> ref option \<Rightarrow> node" where
  "table_record i ps cs pk = blank\<lparr>node_id := i, parents := ps, children := cs, primary_key := pk\<rparr>"

definition column_record :: "string \<Rightarrow> ref list \<Rightarrow> string \<Rightarrow> string \<Rightarrow> node" where
  "column_record i ps ty k =
     blank\<lparr>node_id := i, parents := ps, col_type := Some ty, col_null := Some False,
       col_key := Some k, group := ''Undefined''\<rparr>"

definition leaves_example :: store where
  "leaves_example =
     [table_record ''Actino'' [] [1, 2, 6] None,
      table_record ''phage'' [0] [3] (Some 3),
      table_record ''gene'' [0] [4, 5] (Some 4),
      column_record ''PhageID'' [1] ''varchar(25)'' ''PRI'',
      column_record ''GeneID'' [2] ''varchar(35)'' ''PRI'',
      column_record ''PhageID'' [2] ''varchar(25)'' ''MUL'',
      table_record ''version'' [0] [7] None,
      column_record ''Version'' [6] ''int(11)'' []]"

definition webs_example :: store where
  "webs_example =
     [table_record ''Actino'' [] [1, 2, 6] None,
      table_record ''phage'' [0] [3] (Some 3),
      table_record ''gene'' [0] [4, 3] (Some 4),
      column_record ''PhageID'' [1, 2] ''varchar(25)'' ''PRI'',
      column_record ''GeneID'' [2] ''varchar(35)'' ''PRI'',
      column_record ''PhageID'' [] ''varchar(25)'' ''MUL'',
      table_record ''version'' [0] [7] None,
      column_record ''Version'' [6] ''int(11)'' []]"

definition foreign_key_row :: "string \<Rightarrow> string \<Rightarrow> string \<Rightarrow> row" where
  "foreign_key_row referencing column_name referenced =
     [(''TABLE_NAME'', Str referencing), (''COLUMN_NAME'', Str column_name),
      (''CONSTRAINT_NAME'', Str (referencing @ ''_ibfk_1'')),
      (''REFERENCED_TABLE_NAME'', Str referenced),
      (''REFERENCED_COLUMN_NAME'', Str column_name)]"

definition catalog_example :: sql_handle where
  "catalog_example =
     \<lparr>database = ''Actino'',
      respond = (\<lambda>q. if q = foreign_key_query ''Actino'' ''phage''
                      then [foreign_key_row ''gene'' ''PhageID'' ''phage'']
                      else if q = ''SELECT PhageID FROM phage WHERE PhageID IN ('' @
                                   apostrophe @ ''Trixie'' @ apostrophe @ '','' @
                                   apostrophe @ ''L5'' @ apostrophe @ '')''
                      then [[(''PhageID'', Str ''L5'')], [(''PhageID'', Str ''Trixie'')]]
                      else []),
      sent = []\<rparr>"

text \<open>A table \<^verbatim>\<open>gene\<close> with one column \<^verbatim>\<open>Name varchar(10)\<close>, and a catalog that answers
  every statement with one row holding the count \<open>n\<close>.\<close>

definition grouping_example :: store where
  "grouping_example =
     [table_record ''gene'' [] [1] None,
      column_record ''Name'' [0] ''varchar(10)'' []]"

definition counting :: "int \<Rightarrow> sql_handle" where
  "counting n =
     \<lparr>database = ''Actino'',
      respond = (\<lambda>q. [[(''COUNT(DISTINCT Name)'', Num n)]]),
      sent = []\<rparr>"

text \<open>A canonicalized schema with a key of type \<^verbatim>\<open>char(10)\<close>: \<^verbatim>\<open>gene\<close> (\<^verbatim>\<open>GeneID\<close>) and
  \<^verbatim>\<open>phage\<close> (\<^verbatim>\<open>PhageID\<close>, \<^verbatim>\<open>Cluster\<close>) share the column \<^verbatim>\<open>PhageID\<close> of \<^verbatim>\<open>phage\<close>. The
  backend counts 100 distinct \<^verbatim>\<open>PhageID\<close> in \<^verbatim>\<open>gene\<close>, 5000 in \<^verbatim>\<open>phage\<close>, and \<open>n\<close>
  distinct \<^verbatim>\<open>Cluster\<close>.\<close>

definition shared_example :: store where
  "shared_example =
     [table_record ''Actino'' [] [1, 2] None,
      table_record ''gene'' [0] [3, 4] (Some 3),
      table_record ''phage'' [0] [4, 5] (Some 4),
      column_record ''GeneID'' [1] ''varchar(35)'' ''PRI'',
      column_record ''PhageID'' [2, 1] ''char(10)'' ''PRI'',
      column_record ''Cluster'' [2] ''varchar(5)'' []]"

definition shared_counts :: "int \<Rightarrow> sql_handle" where
  "shared_counts n =
     \<lparr>database = ''Actino'',
      respond = (\<lambda>q. if q = ''SELECT COUNT(DISTINCT PhageID) FROM gene''
                      then [[(''COUNT(DISTINCT PhageID)'', Num 100)]]
                      else if q = ''SELECT COUNT(DISTINCT PhageID) FROM phage''
                      then [[(''COUNT(DISTINCT PhageID)'', Num 5000)]]
                      else [[(''COUNT(DISTINCT Cluster)'', Num n)]]),
      sent = []\<rparr>"

text \<open>The nodes of \<open>leaves_example\<close> with the same edges, made with the constructors
  and linked with \<^verbatim>\<open>add_table\<close> and \<^verbatim>\<open>add_column\<close>, the way introspection links them
  (column types and primary keys, which are no edges, left aside).\<close>

definition leaves_edges :: store where
  "leaves_edges =
     add_column (add_column (add_column (add_column (add_table (add_table (add_table
       (snd (ColumnNode (snd (TableNode (snd (ColumnNode (snd (ColumnNode (snd (ColumnNode
          (snd (TableNode (snd (TableNode (snd (Node [] ''Actino'')) ''phage'')) ''gene''))
          ''PhageID'' None None None)) ''GeneID'' None None None)) ''PhageID'' None None None))
          ''version'')) ''Version'' None None None))
       0 1) 0 2) 0 6) 1 3) 2 4) 2 5) 6 7"

text \<open>
  A schema with a chain of foreign keys on one column name: \<^verbatim>\<open>engineer.id\<close> and
  \<^verbatim>\<open>manager.id\<close> reference \<^verbatim>\<open>employee.id\<close>, and \<^verbatim>\<open>employee.id\<close> references \<^verbatim>\<open>person.id\<close>.
  Node 0 is the database, 1 to 4 are the tables \<^verbatim>\<open>employee\<close>, \<^verbatim>\<open>engineer\<close>, \<^verbatim>\<open>manager\<close>,
  \<^verbatim>\<open>person\<close>, and node \<open>4 + t\<close> is the column \<^verbatim>\<open>id\<close> of table \<open>t\<close>. \<open>staff_leaves\<close> is the
  graph after \<^verbatim>\<open>setup_db_tree_leaves\<close> with the tables in the given order, and
  \<open>staff_webs\<close> the graph \<^verbatim>\<open>setup_db_tree_webs\<close> makes of it for the order
  \<^verbatim>\<open>employee, engineer, manager, person\<close>.
\<close>

definition staff_leaves :: "ref list \<Rightarrow> store" where
  "staff_leaves tables =
     [table_record ''staff'' [] tables None,
      table_record ''employee'' [0] [5] (Some 5),
      table_record ''engineer'' [0] [6] (Some 6),
      table_record ''manager'' [0] [7] (Some 7),
      table_record ''person'' [0] [8] (Some 8),
      column_record ''id'' [1] ''int(11)'' ''PRI'',
      column_record ''id'' [2] ''int(11)'' ''PRI'',
      column_record ''id'' [3] ''int(11)'' ''PRI'',
      column_record ''id'' [4] ''int(11)'' ''PRI'']"

definition staff_catalog :: sql_handle where
  "staff_catalog =
     \<lparr>database = ''staff'',
      respond = (\<lambda>q. if q = foreign_key_query ''staff'' ''employee''
                      then [foreign_key_row ''engineer'' ''id'' ''employee'',
                            foreign_key_row ''manager'' ''id'' ''employee'']
                      else if q = foreign_key_query ''staff'' ''person''
                      then [foreign_key_row ''employee'' ''id'' ''person'']
                      else []),
      sent = []\<rparr>"

definition staff_webs :: store where
  "staff_webs =
     [table_record ''staff'' [] [1, 2, 3, 4] None,
      table_record ''employee'' [0] [8] (Some 8),
      table_record ''engineer'' [0] [8] (Some 5),
      table_record ''manager'' [0] [5] (Some 5),
      table_record ''person'' [0] [8] (Some 8),
      column_record ''id'' [3] ''int(11)'' ''PRI'',
      column_record ''id'' [] ''int(11)'' ''PRI'',
      column_record ''id'' [] ''int(11)'' ''PRI'',
      column_record ''id'' [4, 1, 2] ''int(11)'' ''PRI'']"

text \<open>The same tables without the chain: the catalog reports only that \<^verbatim>\<open>engineer.id\<close> and
  \<^verbatim>\<open>manager.id\<close> reference \<^verbatim>\<open>employee.id\<close>. \<open>staff_edges\<close> has the nodes and edges of
  \<open>staff_leaves [1, 2, 3, 4]\<close>, made with the constructors and linked with
  \<^verbatim>\<open>add_table\<close> and \<^verbatim>\<open>add_column\<close>.\<close>

definition fan_catalog :: sql_handle where
  "fan_catalog =
     \<lparr>database = ''staff'',
      respond = (\<lambda>q. if q = foreign_key_query ''staff'' ''employee''
                      then [foreign_key_row ''engineer'' ''id'' ''employee'',
                            foreign_key_row ''manager'' ''id'' ''employee'']
                      else []),
      sent = []\<rparr>"

definition staff_edges :: store where
  "staff_edges =
     add_column (add_column (add_column (add_column
       (add_table (add_table (add_table (add_table
         (snd (ColumnNode (snd (ColumnNode (snd (ColumnNode (snd (ColumnNode
            (snd (TableNode (snd (TableNode (snd (TableNode (snd (TableNode
               (snd (Node [] ''staff'')) ''employee'')) ''engineer'')) ''manager'')) ''person''))
            ''id'' None None None)) ''id'' None None None)) ''id'' None None None))
            ''id'' None None None))
       0 1) 0 2) 0 3) 0 4) 1 5) 2 6) 3 7) 4 8"

lemmas example_defs =
  leaves_example_def webs_example_def catalog_example_def table_record_def column_record_def
  grouping_example_def counting_def staff_leaves_def staff_catalog_def staff_webs_def
  foreign_key_row_def blank_def node_at_def

section \<open>Properties\<close>

subsection \<open>Reading the store\<close>

lemma length_put [simp]: "length (put h r n) = length h"
  by (simp add: put_def)

lemma node_at_put: "node_at (put h r n) x = (if x = r \<and> r < length h then n else node_at h x)"
  by (simp add: put_def node_at_def)

lemma node_at_beyond [simp]: "\<not> r < length h \<Longrightarrow> node_at h r = blank"
  by (simp add: node_at_def)

lemma blank_simps [simp]: "parents blank = []" "children blank = []" "primary_key blank = None"
  by (simp_all add: blank_def)

lemma node_at_append: "node_at (h @ [n]) x = (if x = length h then n else node_at h x)"
  by (auto simp add: node_at_def nth_append)

lemma count_remove1:
  "count_list (remove1 a xs) b = (if a = b \<and> a \<in> set xs then count_list xs b - 1 else count_list xs b)"
  by (induction xs) auto

lemma count_list_pos: "x \<in> set xs \<longleftrightarrow> 0 < count_list xs x"
  by (induction xs) auto

lemma paired_mem: "paired h \<Longrightarrow> w \<in> set (children (node_at h v)) \<longleftrightarrow> v \<in> set (parents (node_at h w))"
  by (simp add: paired_def count_list_pos)


lemma children_add_parent:
  "v < length h \<Longrightarrow> p < length h \<Longrightarrow>
   children (node_at (add_parent h v p) x) =
     (if x = p then children (node_at h p) @ [v] else children (node_at h x))"
  by (simp add: add_parent_def Let_def node_at_put)

lemma parents_add_parent:
  "v < length h \<Longrightarrow> p < length h \<Longrightarrow>
   parents (node_at (add_parent h v p) x) =
     (if x = v then parents (node_at h v) @ [p] else parents (node_at h x))"
  by (simp add: add_parent_def Let_def node_at_put)

lemma length_add_parent [simp]: "length (add_parent h v p) = length h"
  by (simp add: add_parent_def Let_def)

lemma children_add_child:
  "v < length h \<Longrightarrow> c < length h \<Longrightarrow>
   children (node_at (add_child h v c) x) =
     (if x = v then children (node_at h v) @ [c] else children (node_at h x))"
  by (simp add: add_child_def Let_def node_at_put)

lemma parents_add_child:
  "v < length h \<Longrightarrow> c < length h \<Longrightarrow>
   parents (node_at (add_child h v c) x) =
     (if x = c then parents (node_at h c) @ [v] else parents (node_at h x))"
  by (simp add: add_child_def Let_def node_at_put)

lemma length_add_child [simp]: "length (add_child h v p) = length h"
  by (simp add: add_child_def Let_def)

lemma paired_add_parent: "paired h \<Longrightarrow> v < length h \<Longrightarrow> p < length h \<Longrightarrow> paired (add_parent h v p)"
  by (simp add: paired_def children_add_parent parents_add_parent)

lemma paired_add_child: "paired h \<Longrightarrow> v < length h \<Longrightarrow> c < length h \<Longrightarrow> paired (add_child h v c)"
  by (simp add: paired_def children_add_child parents_add_child)

lemma closed_add_parent: "closed h \<Longrightarrow> v < length h \<Longrightarrow> p < length h \<Longrightarrow> closed (add_parent h v p)"
  by (simp add: closed_def children_add_parent parents_add_parent)

lemma closed_add_child: "closed h \<Longrightarrow> v < length h \<Longrightarrow> c < length h \<Longrightarrow> closed (add_child h v c)"
  by (simp add: closed_def children_add_child parents_add_child)


lemma children_remove_parent:
  "children (node_at (snd (remove_parent h v (Some p))) x) =
     (if x = p \<and> p \<in> set (parents (node_at h v)) \<and> v \<in> set (children (node_at h p)) \<and> p < length h
      then remove1 v (children (node_at h p)) else children (node_at h x))"
  by (auto simp add: remove_parent_def Let_def node_at_put)

lemma parents_remove_parent:
  "parents (node_at (snd (remove_parent h v (Some p))) x) =
     (if x = v \<and> p \<in> set (parents (node_at h v))
      then remove1 p (parents (node_at h v)) else parents (node_at h x))"
  by (auto simp add: remove_parent_def Let_def node_at_put)

lemma length_remove_parent [simp]: "length (snd (remove_parent h v po)) = length h"
  by (cases po) (simp_all add: remove_parent_def Let_def)


lemma children_remove_child:
  "children (node_at (snd (remove_child h v (Some c))) x) =
     (if x = v \<and> c \<in> set (children (node_at h v))
      then remove1 c (children (node_at h v)) else children (node_at h x))"
  by (auto simp add: remove_child_def Let_def node_at_put)

lemma parents_remove_child:
  "parents (node_at (snd (remove_child h v (Some c))) x) =
     (if x = c \<and> c \<in> set (children (node_at h v)) \<and> v \<in> set (parents (node_at h c))
      then remove1 v (parents (node_at h c)) else parents (node_at h x))"
  by (auto simp add: remove_child_def Let_def node_at_put)

lemma length_remove_child [simp]: "length (snd (remove_child h v co)) = length h"
  by (cases co) (simp_all add: remove_child_def Let_def)

lemma pairedD: "paired h \<Longrightarrow> count_list (children (node_at h v)) w = count_list (parents (node_at h w)) v"
  by (simp add: paired_def)

lemma paired_remove_parent:
  assumes "paired h"
  shows "paired (snd (remove_parent h v po))"
proof (cases po)
  case None
  then show ?thesis using assms by (simp add: remove_parent_def)
next
  case (Some p)
  have m: "p \<in> set (parents (node_at h v)) \<longleftrightarrow> v \<in> set (children (node_at h p))"
    using assms by (simp add: paired_mem)
  have len: "v \<in> set (children (node_at h p)) \<Longrightarrow> p < length h"
    by (cases "p < length h") auto
  show ?thesis
    unfolding paired_def Some
  proof (intro allI)
    fix x w
    show "count_list (children (node_at (snd (remove_parent h v (Some p))) x)) w =
          count_list (parents (node_at (snd (remove_parent h v (Some p))) w)) x"
    proof (cases "p \<in> set (parents (node_at h v))")
      case False
      then show ?thesis
        using m by (simp add: children_remove_parent parents_remove_parent pairedD [OF assms])
    next
      case True
      then have c: "v \<in> set (children (node_at h p))" and l: "p < length h"
        using m len by auto
      show ?thesis
        using True c l pairedD [OF assms, of x w] pairedD [OF assms, of p v]
        by (auto simp add: children_remove_parent parents_remove_parent count_remove1)
    qed
  qed
qed

lemma paired_remove_child:
  assumes "paired h"
  shows "paired (snd (remove_child h v co))"
proof (cases co)
  case None
  then show ?thesis using assms by (simp add: remove_child_def)
next
  case (Some c)
  have m: "c \<in> set (children (node_at h v)) \<longleftrightarrow> v \<in> set (parents (node_at h c))"
    using assms by (simp add: paired_mem)
  show ?thesis
    unfolding paired_def Some
  proof (intro allI)
    fix x w
    show "count_list (children (node_at (snd (remove_child h v (Some c))) x)) w =
          count_list (parents (node_at (snd (remove_child h v (Some c))) w)) x"
    proof (cases "c \<in> set (children (node_at h v))")
      case False
      then show ?thesis
        using m by (simp add: children_remove_child parents_remove_child pairedD [OF assms])
    next
      case True
      then have c: "v \<in> set (parents (node_at h c))"
        using m by auto
      show ?thesis
        using True c pairedD [OF assms, of x w] pairedD [OF assms, of v c]
        by (auto simp add: children_remove_child parents_remove_child count_remove1)
    qed
  qed
qed

lemma in_remove1D: "w \<in> set (remove1 a xs) \<Longrightarrow> w \<in> set xs"
  by (metis notin_set_remove1)

lemma closed_parents: "closed h \<Longrightarrow> w \<in> set (parents (node_at h v)) \<Longrightarrow> w < length h"
  by (cases "v < length h") (auto simp add: closed_def)

lemma closed_children: "closed h \<Longrightarrow> w \<in> set (children (node_at h v)) \<Longrightarrow> w < length h"
  by (cases "v < length h") (auto simp add: closed_def)

lemma closedI:
  "(\<And>v w. w \<in> set (parents (node_at h v)) \<Longrightarrow> w < length h) \<Longrightarrow>
   (\<And>v w. w \<in> set (children (node_at h v)) \<Longrightarrow> w < length h) \<Longrightarrow> closed h"
  unfolding closed_def by blast

lemma closed_remove_parent:
  assumes "closed h"
  shows "closed (snd (remove_parent h v po))"
proof (cases po)
  case None
  then show ?thesis using assms by (simp add: remove_parent_def)
next
  case (Some p)
  show ?thesis
    unfolding Some
  proof (rule closedI)
    fix x w
    assume "w \<in> set (parents (node_at (snd (remove_parent h v (Some p))) x))"
    then have "w \<in> set (parents (node_at h x))"
      by (auto simp add: parents_remove_parent dest: in_remove1D split: if_splits)
    then show "w < length (snd (remove_parent h v (Some p)))"
      using assms by (simp add: closed_parents)
  next
    fix x w
    assume "w \<in> set (children (node_at (snd (remove_parent h v (Some p))) x))"
    then have "w \<in> set (children (node_at h x))"
      by (auto simp add: children_remove_parent dest: in_remove1D split: if_splits)
    then show "w < length (snd (remove_parent h v (Some p)))"
      using assms by (simp add: closed_children)
  qed
qed

lemma closed_remove_child:
  assumes "closed h"
  shows "closed (snd (remove_child h v co))"
proof (cases co)
  case None
  then show ?thesis using assms by (simp add: remove_child_def)
next
  case (Some c)
  show ?thesis
    unfolding Some
  proof (rule closedI)
    fix x w
    assume "w \<in> set (parents (node_at (snd (remove_child h v (Some c))) x))"
    then have "w \<in> set (parents (node_at h x))"
      by (auto simp add: parents_remove_child dest: in_remove1D split: if_splits)
    then show "w < length (snd (remove_child h v (Some c)))"
      using assms by (simp add: closed_parents)
  next
    fix x w
    assume "w \<in> set (children (node_at (snd (remove_child h v (Some c))) x))"
    then have "w \<in> set (children (node_at h x))"
      by (auto simp add: children_remove_child dest: in_remove1D split: if_splits)
    then show "w < length (snd (remove_child h v (Some c)))"
      using assms by (simp add: closed_children)
  qed
qed


lemma count_list_zero: "x \<notin> set xs \<Longrightarrow> count_list xs x = 0"
  by (simp add: count_list_pos)

lemma closed_alloc:
  assumes "closed h" "parents n = []" "children n = []"
  shows "closed (h @ [n])"
proof (rule closedI)
  fix v w
  assume "w \<in> set (parents (node_at (h @ [n]) v))"
  then have "w \<in> set (parents (node_at h v))"
    using assms(2) by (simp add: node_at_append split: if_splits)
  then show "w < length (h @ [n])"
    using closed_parents [OF assms(1)] by fastforce
next
  fix v w
  assume "w \<in> set (children (node_at (h @ [n]) v))"
  then have "w \<in> set (children (node_at h v))"
    using assms(3) by (simp add: node_at_append split: if_splits)
  then show "w < length (h @ [n])"
    using closed_children [OF assms(1)] by fastforce
qed

lemma paired_alloc:
  assumes "paired h" "closed h" "parents n = []" "children n = []"
  shows "paired (h @ [n])"
  unfolding paired_def
proof (intro allI)
  fix v w
  have a: "length h \<notin> set (children (node_at h v))"
    using closed_children [OF assms(2), of "length h" v] by auto
  have b: "length h \<notin> set (parents (node_at h w))"
    using closed_parents [OF assms(2), of "length h" w] by auto
  show "count_list (children (node_at (h @ [n]) v)) w = count_list (parents (node_at (h @ [n]) w)) v"
    using a b assms(3,4) pairedD [OF assms(1), of v w]
    by (simp add: node_at_append count_list_zero)
qed

lemma create_column_eq:
  "create_column h self column =
     (case ColumnNode h column None None None of (c, h1) \<Rightarrow> (c, add_child h1 self c))"
  by (simp add: create_column_def add_child_def ColumnNode_def Let_def)

lemma column_create_table_eq:
  "column_create_table h self table =
     (case TableNode h table of (t, h1) \<Rightarrow> (t, add_parent h1 self t))"
  by (simp add: column_create_table_def add_parent_def TableNode_def Let_def)


lemma built_linked: "built h \<Longrightarrow> linked h"
proof (induction rule: built.induct)
  case b_empty
  show ?case by (simp add: linked_def closed_def paired_def node_at_def)
next
  case (b_Node h i)
  then show ?case by (simp add: linked_def Node_def closed_alloc paired_alloc)
next
  case (b_TableNode h i)
  then show ?case by (simp add: linked_def TableNode_def closed_alloc paired_alloc)
next
  case (b_ColumnNode h i ty nl k)
  then show ?case by (simp add: linked_def ColumnNode_def closed_alloc paired_alloc)
next
  case (b_add_parent h v p)
  then show ?case by (simp add: linked_def closed_add_parent paired_add_parent)
next
  case (b_add_child h v c)
  then show ?case by (simp add: linked_def closed_add_child paired_add_child)
next
  case (b_create_parent h v i)
  then show ?case
    by (simp add: linked_def create_parent_def Node_def closed_alloc paired_alloc
        closed_add_parent paired_add_parent)
next
  case (b_create_child h v i)
  then show ?case
    by (simp add: linked_def create_child_def Node_def closed_alloc paired_alloc
        closed_add_child paired_add_child)
next
  case (b_create_column h v i)
  then show ?case
    by (simp add: linked_def create_column_eq ColumnNode_def closed_alloc paired_alloc
        closed_add_child paired_add_child)
next
  case (b_create_table h v i)
  then show ?case
    by (simp add: linked_def column_create_table_eq TableNode_def closed_alloc paired_alloc
        closed_add_parent paired_add_parent)
next
  case (b_remove_parent h v po)
  then show ?case by (simp add: linked_def closed_remove_parent paired_remove_parent)
next
  case (b_remove_child h v co)
  then show ?case by (simp add: linked_def closed_remove_child paired_remove_child)
qed

subsection \<open>C9: edges are stored on both sides\<close>

text \<open>
  C9. In a graph built and changed only through \<^verbatim>\<open>add_parent\<close>, \<^verbatim>\<open>add_child\<close>,
  \<^verbatim>\<open>create_parent\<close>, \<^verbatim>\<open>create_child\<close>, the table and column wrappers and
  \<^verbatim>\<open>remove_parent\<close>, \<^verbatim>\<open>remove_child\<close>: if \<open>v2\<close> is among the children of \<open>v1\<close> then
  \<open>v1\<close> is among the parents of \<open>v2\<close>. Every operation adds or removes the two sides
  of an edge together (\<open>built_linked\<close>: each side lists the other equally often), also
  when a \<^verbatim>\<open>remove\<close> fails.
\<close>

theorem reciprocal_edges:
  "built h \<Longrightarrow> v2 \<in> set (children (node_at h v1)) \<Longrightarrow> v1 \<in> set (parents (node_at h v2))"
  using built_linked [of h] by (simp add: linked_def paired_mem)

theorem reciprocal_edges_witness:
  "built (add_child (snd (Node (snd (Node [] ''db'')) ''phage'')) 0 1) \<and>
   1 \<in> set (children (node_at (add_child (snd (Node (snd (Node [] ''db'')) ''phage'')) 0 1) 0)) \<and>
   0 \<in> set (parents (node_at (add_child (snd (Node (snd (Node [] ''db'')) ''phage'')) 0 1) 1))"
proof -
  let ?h = "add_child (snd (Node (snd (Node [] ''db'')) ''phage'')) 0 1"
  have b: "built ?h"
    by (intro built.intros) (simp_all add: Node_def)
  have c: "1 \<in> set (children (node_at ?h 0))"
    by (subst children_add_child) (simp_all add: Node_def node_at_def)
  from reciprocal_edges [OF b c] b c show ?thesis by simp
qed

subsection \<open>C5: the path from a table to itself\<close>

lemma webs_example_run:
  "fst (setup_db_tree_webs catalog_example leaves_example 0) = Inr webs_example"
  by (simp add: example_defs setup_db_tree_webs_def execute_query_def foreign_key_query_def
      apostrophe_def link_foreign_key_def field_def get_column_def get_table_def get_child_def
      column_add_table_def add_parent_def put_def Let_def remove_column_def remove_child_def)

text \<open>
  C5. For every table \<open>x\<close>, \<^verbatim>\<open>find_path(x, x)\<close> with no accumulated path returns the empty
  path, and \<^verbatim>\<open>find_path(x, x, p)\<close> returns the accumulated path \<open>p\<close> unchanged. An
  accumulated path consists of hops \<^verbatim>\<open>[table.id, link.id]\<close>, none of which is empty.
\<close>

theorem find_path_same_table:
  "find_path h x x None = Inr (Some []) \<and>
   ([] \<notin> set p \<longrightarrow> find_path h x x (Some p) = Inr (Some p))"
  by (simp add: previous_tables_def)

theorem find_path_same_table_witness:
  "find_path webs_example 2 2 None = Inr (Some []) \<and>
   find_path webs_example 2 2 (Some [[''gene'', ''PhageID'']]) = Inr (Some [[''gene'', ''PhageID'']])"
  using find_path_same_table [of webs_example 2 "[[''gene'', ''PhageID'']]"] by simp

subsection \<open>C7: the candidate links of a table\<close>

lemma foreign_keys_loop_filter:
  "foreign_keys_loop h self acc cs =
     acc @ filter (\<lambda>c. Some c \<noteq> primary_key (node_at h self) \<and> length (parents (node_at h c)) > 1) cs"
  by (induction cs arbitrary: acc) auto

lemma get_foreign_keys_filter:
  "get_foreign_keys h self =
     filter (\<lambda>c. Some c \<noteq> primary_key (node_at h self) \<and> length (parents (node_at h c)) > 1)
       (children (node_at h self))"
  by (simp add: get_foreign_keys_def foreign_keys_loop_filter)

lemma table_links_candidates:
  assumes "primary_key (node_at h curr_table) = Some pk"
  shows "table_links h curr_table = Inr (candidate_links h curr_table pk)"
proof -
  have "filter (\<lambda>c. Some c \<noteq> Some pk \<and> length (parents (node_at h c)) > 1)
          (children (node_at h curr_table)) =
        filter (\<lambda>c. length (parents (node_at h c)) > 1 \<and> c \<noteq> pk) (children (node_at h curr_table))"
    by (rule filter_cong) auto
  then show ?thesis
    using assms by (simp add: table_links_def candidate_links_def get_foreign_keys_filter)
qed

text \<open>
  C7. In \<^verbatim>\<open>find_path\<close> the candidate links of the current table are exactly its child
  columns that have more than one parent and are not its primary key, in child order,
  and the primary key is put in front of them when it has more than one parent itself
  (\<open>candidate_links\<close>); the search from a table other than the target runs the loop
  over the links on exactly this list.
\<close>

theorem candidate_links_tried:
  "primary_key (node_at h curr_table) = Some pk \<Longrightarrow>
   table_links h curr_table = Inr (candidate_links h curr_table pk) \<and>
   (curr_table \<noteq> target_table \<and> [] \<notin> set current_path \<longrightarrow>
    find_path h curr_table target_table (Some current_path) =
      links_loop h curr_table target_table current_path (candidate_links h curr_table pk))"
  by (simp add: table_links_candidates previous_tables_def)

theorem candidate_links_tried_witness:
  "primary_key (node_at webs_example 1) = Some 3 \<and>
   candidate_links webs_example 1 3 = [3] \<and>
   table_links webs_example 1 = Inr [3] \<and>
   find_path webs_example 1 2 (Some []) = links_loop webs_example 1 2 [] [3]"
proof -
  have pk: "primary_key (node_at webs_example 1) = Some 3"
    by (simp add: example_defs)
  have c: "candidate_links webs_example 1 3 = [3]"
    by (simp add: example_defs candidate_links_def)
  from candidate_links_tried [OF pk, of 2 "[]"] pk c show ?thesis by simp
qed

subsection \<open>C10: a table without primary key\<close>

text \<open>
  C10. \<^verbatim>\<open>find_path\<close> reads \<^verbatim>\<open>curr_table.primary_key.parents\<close> without a check: for a
  current table whose \<^verbatim>\<open>primary_key\<close> is still the \<^verbatim>\<open>None\<close> that \<^verbatim>\<open>TableNode.__init__\<close>
  sets (introspection assigns it only for a column with key \<^verbatim>\<open>PRI\<close>) and that is not
  the target, the call raises \<^verbatim>\<open>AttributeError\<close> and does not return the no-path
  result.
\<close>

theorem find_path_no_primary_key:
  "primary_key (node_at h curr_table) = None \<Longrightarrow> curr_table \<noteq> target_table \<Longrightarrow>
   find_path h curr_table target_table None = Inl AttributeError \<and>
   ([] \<notin> set p \<longrightarrow> find_path h curr_table target_table (Some p) = Inl AttributeError)"
  by (simp add: previous_tables_def table_links_def)

theorem find_path_no_primary_key_witness:
  "primary_key (node_at (snd (TableNode (snd (TableNode [] ''phage'')) ''gene'')) 0) = None \<and>
   find_path (snd (TableNode (snd (TableNode [] ''phage'')) ''gene'')) 0 1 None = Inl AttributeError \<and>
   find_path (snd (TableNode (snd (TableNode [] ''phage'')) ''gene'')) 0 1 (Some [[''gene'', ''PhageID'']])
     = Inl AttributeError"
proof -
  let ?h = "snd (TableNode (snd (TableNode [] ''phage'')) ''gene'')"
  have n: "primary_key (node_at ?h 0) = None"
    by (simp add: TableNode_def node_at_def blank_def)
  have d: "(0::nat) \<noteq> 1" by simp
  from find_path_no_primary_key [OF n d, of "[[''gene'', ''PhageID'']]"] n show ?thesis by simp
qed

subsection \<open>C4: \<^verbatim>\<open>build_values\<close> rejects unknown tables and columns\<close>

lemma scan_id_None:
  "scan_id h i found cs = None \<longleftrightarrow> found = None \<and> (\<forall>c \<in> set cs. Str (node_id (node_at h c)) \<noteq> i)"
  by (induction cs arbitrary: found) auto

lemma get_child_None: "get_child h v (Str i) = None \<longleftrightarrow> \<not> has_child h v i"
  by (auto simp add: get_child_def has_child_def show_children_def scan_id_None)

text \<open>
  C4. \<^verbatim>\<open>build_values(table, column, ...)\<close> raises \<^verbatim>\<open>ValueError\<close> when the database node
  has no table of that name, and when the table is found but has no column of that
  name; in both cases the handle comes back as it went in, so no statement was sent,
  and the call has no access to the graph but to read it.
\<close>

theorem build_values_rejects:
  assumes "\<not> has_table h db_node table_name \<or>
           (\<exists>t. get_table h db_node (Str table_name) = Some t \<and> \<not> has_column h t column_name)"
  shows "build_values s h db_node table_name column_name values_column queries vals =
           (Inl ValueError, s)"
proof -
  from assms consider "get_table h db_node (Str table_name) = None"
    | t where "get_table h db_node (Str table_name) = Some t" "\<not> has_column h t column_name"
    by (auto simp add: has_table_def get_table_def get_child_None)
  then show ?thesis
    by cases (simp_all add: build_values_def)
qed

theorem build_values_rejects_witness:
  "\<not> has_table webs_example 0 ''domain'' \<and>
   build_values catalog_example webs_example 0 ''domain'' ''PhageID'' None [] [] =
     (Inl ValueError, catalog_example) \<and>
   get_table webs_example 0 (Str ''phage'') = Some 1 \<and> \<not> has_column webs_example 1 ''GeneID'' \<and>
   build_values catalog_example webs_example 0 ''phage'' ''GeneID'' None [] [''Trixie''] =
     (Inl ValueError, catalog_example)"
proof -
  have a: "\<not> has_table webs_example 0 ''domain''"
    by (simp add: example_defs has_table_def has_child_def show_children_def)
  have b: "get_table webs_example 0 (Str ''phage'') = Some 1"
    by (simp add: example_defs get_table_def get_child_def)
  have c: "\<not> has_column webs_example 1 ''GeneID''"
    by (simp add: example_defs has_column_def has_child_def show_children_def)
  from a have 1: "build_values catalog_example webs_example 0 ''domain'' ''PhageID'' None [] [] =
     (Inl ValueError, catalog_example)"
    by (intro build_values_rejects) simp
  from b c have 2: "build_values catalog_example webs_example 0 ''phage'' ''GeneID'' None [] [''Trixie''] =
     (Inl ValueError, catalog_example)"
    by (intro build_values_rejects) simp
  from a b c 1 2 show ?thesis by simp
qed

subsection \<open>C3: the statement \<^verbatim>\<open>build_values\<close> executes\<close>

lemma join_snoc: "join sep (xs @ [x]) = (if xs = [] then x else join sep xs @ sep @ x)"
  by (induction sep xs rule: join.induct) auto

lemma join_quoted:
  "vals \<noteq> [] \<Longrightarrow> a @ join (a @ sep @ a) vals @ a = join sep (map (\<lambda>v. a @ v @ a) vals)"
  by (induction "a @ sep @ a" vals rule: join.induct) auto

lemma in_clause_containment: "vals \<noteq> [] \<Longrightarrow> in_clause k vals = containment_test k vals"
  using join_quoted [of vals apostrophe "'',''"]
  by (simp add: in_clause_def containment_test_def)

lemma collect_column_all:
  "\<forall>r \<in> set rows. map_of r column_name \<noteq> None \<Longrightarrow>
   collect_column column_name rows = Inr (map (\<lambda>r. the (map_of r column_name)) rows)"
  by (induction rows) (auto simp add: field_def)

text \<open>
  C3, as stated, fails on a table without primary key: \<^verbatim>\<open>version\<close> has the column
  \<^verbatim>\<open>Version\<close>, so a call with values and no \<^verbatim>\<open>values_column\<close> passes the table and
  column checks, but it reads \<^verbatim>\<open>table_node.primary_key.id\<close>, raises \<^verbatim>\<open>AttributeError\<close>
  and executes no statement at all.
\<close>

theorem build_values_no_key_counterexample:
  "get_table webs_example 0 (Str ''version'') = Some 6 \<and>
   has_column webs_example 6 ''Version'' \<and>
   primary_key (node_at webs_example 6) = None \<and>
   build_values catalog_example webs_example 0 ''version'' ''Version'' None [] [''1''] =
     (Inl AttributeError, catalog_example)"
  by (simp add: example_defs build_values_def get_table_def get_child_def has_column_def
      has_child_def show_children_def)

text \<open>
  C3, amended. For a call \<^verbatim>\<open>build_values(table, column, values_column, queries, values)\<close>
  that passes the table and column checks, on a table that has its primary key set
  whenever values are given without a \<^verbatim>\<open>values_column\<close>, the one statement executed is
  \<^verbatim>\<open>SELECT {column} FROM {table}\<close>, followed, when there is a query or a value, by
  \<^verbatim>\<open> WHERE \<close> and the queries joined with \<^verbatim>\<open> and \<close>, with the test
  \<^verbatim>\<open>{K} IN ('v1','v2',...)\<close> as last conjunct when there are values
  (\<open>select_statement\<close>); \<open>K\<close> is the id of the table's primary key when
  \<^verbatim>\<open>values_column\<close> is \<^verbatim>\<open>None\<close>, and \<^verbatim>\<open>values_column\<close> otherwise. The call returns the
  values of \<^verbatim>\<open>{column}\<close> of the result rows, in their order.
\<close>

theorem build_values_statement:
  assumes "get_table h db_node (Str table_name) = Some t"
    and "has_column h t column_name"
    and "vals \<noteq> [] \<and> values_column = None \<longrightarrow> primary_key (node_at h t) = Some pk"
    and "k = (case values_column of None \<Rightarrow> node_id (node_at h pk) | Some vc \<Rightarrow> vc)"
    and "rows = respond s (select_statement table_name column_name k queries vals)"
  shows "build_values s h db_node table_name column_name values_column queries vals =
           (collect_column column_name rows,
            s\<lparr>sent := sent s @ [select_statement table_name column_name k queries vals]\<rparr>) \<and>
         ((\<forall>r \<in> set rows. map_of r column_name \<noteq> None) \<longrightarrow>
          fst (build_values s h db_node table_name column_name values_column queries vals) =
            Inr (map (\<lambda>r. the (map_of r column_name)) rows))"
proof -
  let ?q = "select_statement table_name column_name k queries vals"
  have run: "build_values s h db_node table_name column_name values_column queries vals =
           (collect_column column_name rows, s\<lparr>sent := sent s @ [?q]\<rparr>)"
  proof (cases "vals = []")
    case True
    then show ?thesis
      using assms(1,2,5)
      by (simp add: build_values_def select_statement_def execute_query_def Let_def)
  next
    case False
    show ?thesis
    proof (cases values_column)
      case None
      with False assms(3) have "primary_key (node_at h t) = Some pk" by simp
      then show ?thesis
        using assms(1,2,4,5) False None
        by (simp add: build_values_def select_statement_def execute_query_def Let_def
            join_snoc in_clause_containment)
    next
      case (Some vc)
      then show ?thesis
        using assms(1,2,4,5) False
        by (simp add: build_values_def select_statement_def execute_query_def Let_def
            join_snoc in_clause_containment)
    qed
  qed
  show ?thesis
    unfolding run by (simp add: collect_column_all)
qed

theorem build_values_statement_witness:
  "get_table webs_example 0 (Str ''phage'') = Some 1 \<and>
   has_column webs_example 1 ''PhageID'' \<and>
   primary_key (node_at webs_example 1) = Some 3 \<and>
   select_statement ''phage'' ''PhageID'' ''PhageID'' [] [''Trixie'', ''L5''] =
     ''SELECT PhageID FROM phage WHERE PhageID IN ('' @ apostrophe @ ''Trixie'' @ apostrophe @
       '','' @ apostrophe @ ''L5'' @ apostrophe @ '')'' \<and>
   build_values catalog_example webs_example 0 ''phage'' ''PhageID'' None [] [''Trixie'', ''L5''] =
     (Inr [Str ''L5'', Str ''Trixie''],
      catalog_example\<lparr>sent :=
        [''SELECT PhageID FROM phage WHERE PhageID IN ('' @ apostrophe @ ''Trixie'' @ apostrophe @
           '','' @ apostrophe @ ''L5'' @ apostrophe @ '')'']\<rparr>)"
proof -
  let ?q = "''SELECT PhageID FROM phage WHERE PhageID IN ('' @ apostrophe @ ''Trixie'' @
    apostrophe @ '','' @ apostrophe @ ''L5'' @ apostrophe @ '')''"
  have t: "get_table webs_example 0 (Str ''phage'') = Some 1"
    by (simp add: example_defs get_table_def get_child_def)
  have c: "has_column webs_example 1 ''PhageID''"
    by (simp add: example_defs has_column_def has_child_def show_children_def)
  have pk: "primary_key (node_at webs_example 1) = Some 3"
    by (simp add: example_defs)
  have k: "''PhageID'' = (case None of None \<Rightarrow> node_id (node_at webs_example 3) | Some vc \<Rightarrow> vc)"
    by (simp add: example_defs)
  have q: "select_statement ''phage'' ''PhageID'' ''PhageID'' [] [''Trixie'', ''L5''] = ?q"
    by (simp add: select_statement_def containment_test_def)
  have r: "[[(''PhageID'', Str ''L5'')], [(''PhageID'', Str ''Trixie'')]] =
      respond catalog_example (select_statement ''phage'' ''PhageID'' ''PhageID'' [] [''Trixie'', ''L5''])"
    unfolding q by (simp add: catalog_example_def foreign_key_query_def apostrophe_def)
  have "build_values catalog_example webs_example 0 ''phage'' ''PhageID'' None [] [''Trixie'', ''L5''] =
          (collect_column ''PhageID'' [[(''PhageID'', Str ''L5'')], [(''PhageID'', Str ''Trixie'')]],
           catalog_example\<lparr>sent := sent catalog_example @ [?q]\<rparr>)"
    using build_values_statement [OF t c _ k r] pk q by simp
  then show ?thesis
    using t c pk q by (simp add: field_def catalog_example_def)
qed

subsection \<open>C8: the cardinality probe\<close>

lemma node_id_set_group [simp]: "node_id (node_at (set_group h c g) x) = node_id (node_at h x)"
  by (simp add: set_group_def node_at_put)

lemma group_set_group:
  "group (node_at (set_group h c g) x) = (if x = c \<and> c < length h then g else group (node_at h x))"
  by (simp add: set_group_def node_at_put)

lemma length_set_group [simp]: "length (set_group h c g) = length h"
  by (simp add: set_group_def)

lemma probed_grouping_type:
  assumes "probed h column"
  shows "\<exists>ty. grouping_type h column = Inr ty \<and> ty \<in> set limited_sets \<and> ty \<notin> set num_sets \<and>
           (ty \<in> set str_sets \<longleftrightarrow> parse_type h column = Inr ''varchar'')"
  using assms
  by (auto simp add: probed_def grouping_type_def limited_sets_def num_sets_def str_sets_def
      split: option.splits sum.splits)

text \<open>
  One visit. For a column whose normalized type qualifies for the probe (\<^verbatim>\<open>varchar\<close> of
  a declared size of at most 15, \<^verbatim>\<open>enum\<close>, \<^verbatim>\<open>char\<close>, \<^verbatim>\<open>tinyint\<close>), the body of the loop
  sends one \<^verbatim>\<open>COUNT(DISTINCT column)\<close> statement for the table it visits the column in,
  and sets the group to \<^verbatim>\<open>limited_set\<close> when the count returned is below 150; with a
  count of 150 or more the column keeps the group it had before the probe: \<^verbatim>\<open>str_set\<close>,
  just assigned, for the small \<^verbatim>\<open>varchar\<close>, and its earlier group for the three other
  types, which are in neither the text nor the numeric list.
\<close>

lemma group_column_probe:
  assumes "probed h column"
    and "column < length h"
    and "respond s (count_query (node_id (node_at h column)) (node_id (node_at h table))) =
           results_dict # rest"
    and "map_of results_dict (count_field (node_id (node_at h column))) = Some (Num n)"
  shows "\<exists>h'. group_column s h table column =
             (Inr h', s\<lparr>sent := sent s @
                [count_query (node_id (node_at h column)) (node_id (node_at h table))]\<rparr>) \<and>
           group (node_at h' column) =
             (if n < 150 then ''limited_set''
              else if parse_type h column = Inr ''varchar'' then ''str_set''
              else group (node_at h column)) \<and>
           (group (node_at h column) \<noteq> ''limited_set'' \<longrightarrow>
              (group (node_at h' column) = ''limited_set'' \<longleftrightarrow> n < 150))"
proof -
  from probed_grouping_type [OF assms(1)] obtain ty where
    ty: "grouping_type h column = Inr ty" "ty \<in> set limited_sets" "ty \<notin> set num_sets"
      "ty \<in> set str_sets \<longleftrightarrow> parse_type h column = Inr ''varchar''"
    by blast
  show ?thesis
  proof (cases "ty \<in> set str_sets")
    case True
    then show ?thesis
      using ty assms(2,3,4)
      by (simp add: group_column_def Let_def execute_query_def field_def group_set_group)
  next
    case False
    then show ?thesis
      using ty assms(2,3,4)
      by (simp add: group_column_def Let_def execute_query_def field_def group_set_group)
  qed
qed

text \<open>The body of the loop changes groups only, and only the group of the column it
  visits; it sends the probe of that visit or nothing.\<close>

lemma node_at_set_group:
  "node_at (set_group h c g) x =
     (if x = c \<and> c < length h then (node_at h c)\<lparr>group := g\<rparr> else node_at h x)"
  by (simp add: set_group_def node_at_put)

lemma regrouped_refl: "regrouped h h"
  by (simp add: regrouped_def)

lemma regrouped_trans: "regrouped h h1 \<Longrightarrow> regrouped h1 h2 \<Longrightarrow> regrouped h h2"
  unfolding regrouped_def
  by (metis (no_types, lifting) node.surjective node.update_convs(8))

lemma regrouped_set_group: "regrouped h (set_group h c g)"
  by (simp add: regrouped_def node_at_set_group)

lemma regrouped_fields:
  assumes "regrouped h h'"
  shows "node_id (node_at h' x) = node_id (node_at h x)"
    and "children (node_at h' x) = children (node_at h x)"
    and "col_type (node_at h' x) = col_type (node_at h x)"
proof -
  from assms have e: "node_at h' x = (node_at h x)\<lparr>group := group (node_at h' x)\<rparr>"
    by (simp add: regrouped_def)
  show "node_id (node_at h' x) = node_id (node_at h x)"
    by (subst e) simp
  show "children (node_at h' x) = children (node_at h x)"
    by (subst e) simp
  show "col_type (node_at h' x) = col_type (node_at h x)"
    by (subst e) simp
qed

lemma regrouped_grouping_type: "regrouped h h' \<Longrightarrow> grouping_type h' c = grouping_type h c"
  by (simp add: grouping_type_def parse_type_def regrouped_fields
      cong: sum.case_cong option.case_cong if_cong)

lemma regrouped_parse_type: "regrouped h h' \<Longrightarrow> parse_type h' c = parse_type h c"
  by (simp add: parse_type_def regrouped_fields)

lemma regrouped_sends_probe: "regrouped h h' \<Longrightarrow> sends_probe h' c = sends_probe h c"
  by (simp add: sends_probe_def regrouped_grouping_type)

lemma regrouped_probe_statement: "regrouped h h' \<Longrightarrow> probe_statement h' v = probe_statement h v"
  by (simp add: probe_statement_def regrouped_fields)

lemma regrouped_probed: "regrouped h h' \<Longrightarrow> probed h' c = probed h c"
  by (simp add: probed_def regrouped_parse_type regrouped_fields
      cong: sum.case_cong option.case_cong if_cong)

lemma regrouped_visits: "regrouped h h' \<Longrightarrow> visits h' db = visits h db"
  by (simp add: visits_def regrouped_fields)

lemma regrouped_answered:
  "regrouped h h' \<Longrightarrow> respond s' = respond s \<Longrightarrow> answered s' h' v = answered s h v"
  by (simp add: answered_def regrouped_grouping_type regrouped_probe_statement regrouped_fields
      cong: sum.case_cong option.case_cong list.case_cong if_cong)

lemma probed_in_store: "probed h c \<Longrightarrow> c < length h"
  by (rule ccontr) (simp add: probed_def node_at_beyond blank_def)

lemma probed_sends_probe: "probed h c \<Longrightarrow> sends_probe h c"
  using probed_grouping_type [of h c] by (auto simp add: sends_probe_def)

lemma group_column_frame:
  assumes "group_column s h t c = (Inr h', s')"
  shows "regrouped h h' \<and> (\<forall>x. x \<noteq> c \<longrightarrow> group (node_at h' x) = group (node_at h x)) \<and>
         respond s' = respond s \<and>
         sent s' = sent s @ (if sends_probe h c then [probe_statement h (t, c)] else [])"
proof -
  from assms obtain ty where ty: "grouping_type h c = Inr ty"
    by (auto simp add: group_column_def split: sum.splits)
  define h1 where "h1 = (if ty \<in> set str_sets then set_group h c ''str_set''
                else if ty \<in> set num_sets then set_group h c ''num_set'' else h)"
  have r1: "regrouped h h1"
    by (simp add: h1_def regrouped_set_group regrouped_refl)
  have g1: "x \<noteq> c \<Longrightarrow> group (node_at h1 x) = group (node_at h x)" for x
    by (simp add: h1_def node_at_set_group)
  have ids: "node_id (node_at h1 x) = node_id (node_at h x)" for x
    using r1 by (rule regrouped_fields)
  show ?thesis
  proof (cases "ty \<in> set limited_sets")
    case False
    with assms ty have "h' = h1" "s' = s"
      by (auto simp add: group_column_def Let_def h1_def)
    with r1 g1 ty False show ?thesis
      by (simp add: sends_probe_def)
  next
    case True
    with assms ty have "\<exists>n::int. h' = (if n < 150 then set_group h1 c ''limited_set'' else h1) \<and>
        s' = s\<lparr>sent := sent s @ [count_query (node_id (node_at h1 c)) (node_id (node_at h1 t))]\<rparr>"
      unfolding h1_def
      by (auto simp add: group_column_def Let_def execute_query_def
          split: list.splits sum.splits sql_value.splits)
    then obtain n :: int where
      h': "h' = (if n < 150 then set_group h1 c ''limited_set'' else h1)"
      and s': "s' = s\<lparr>sent := sent s @ [count_query (node_id (node_at h1 c)) (node_id (node_at h1 t))]\<rparr>"
      by blast
    have r2: "regrouped h1 h'"
      by (simp add: h' regrouped_set_group regrouped_refl)
    have g2: "x \<noteq> c \<Longrightarrow> group (node_at h' x) = group (node_at h1 x)" for x
      by (simp add: h' node_at_set_group)
    from regrouped_trans [OF r1 r2] g1 g2 s' ty True show ?thesis
      by (simp add: sends_probe_def probe_statement_def ids)
  qed
qed

lemma group_column_answered:
  assumes "answered s h (t, c)"
  shows "\<exists>h' s'. group_column s h t c = (Inr h', s')"
proof -
  from assms obtain ty where ty: "grouping_type h c = Inr ty"
    by (auto simp add: answered_def split: sum.splits)
  define h1 where "h1 = (if ty \<in> set str_sets then set_group h c ''str_set''
                else if ty \<in> set num_sets then set_group h c ''num_set'' else h)"
  have r1: "regrouped h h1"
    by (simp add: h1_def regrouped_set_group regrouped_refl)
  have ids: "node_id (node_at h1 x) = node_id (node_at h x)" for x
    using r1 by (rule regrouped_fields)
  show ?thesis
  proof (cases "ty \<in> set limited_sets")
    case False
    with ty show ?thesis
      by (simp add: group_column_def Let_def)
  next
    case True
    with assms ty obtain results_dict rest n where
      "respond s (count_query (node_id (node_at h c)) (node_id (node_at h t))) = results_dict # rest"
      "map_of results_dict (count_field (node_id (node_at h c))) = Some (Num n)"
      by (auto simp add: answered_def probe_statement_def split: list.splits option.splits sql_value.splits)
    with ty True have "group_column s h t c =
        (Inr (if n < 150 then set_group h1 c ''limited_set'' else h1),
         s\<lparr>sent := sent s @ [count_query (node_id (node_at h c)) (node_id (node_at h t))]\<rparr>)"
      using ids unfolding h1_def
      by (simp add: group_column_def Let_def execute_query_def field_def)
    then show ?thesis by blast
  qed
qed

text \<open>The two nested loops are the body of the loop along \<open>visits\<close>.\<close>

lemma run_visits_append:
  "run_visits s h (xs @ ys) =
     (case run_visits s h xs of
        (Inl e, s') \<Rightarrow> (Inl e, s')
      | (Inr h', s') \<Rightarrow> run_visits s' h' ys)"
  by (induction xs arbitrary: s h) (simp_all split: prod.splits sum.splits)

lemma run_visits_frame: "run_visits s h vs = (Inr h', s') \<Longrightarrow> regrouped h h'"
proof (induction vs arbitrary: s h)
  case Nil
  then show ?case by (simp add: regrouped_refl)
next
  case (Cons v vs)
  from Cons.prems obtain h1 s1 where
    1: "group_column s h (fst v) (snd v) = (Inr h1, s1)" and 2: "run_visits s1 h1 vs = (Inr h', s')"
    by (auto split: prod.splits sum.splits)
  from group_column_frame [OF 1] Cons.IH [OF 2] show ?case
    by (blast intro: regrouped_trans)
qed

lemma group_columns_run: "group_columns s h t cs = run_visits s h (map (Pair t) cs)"
  by (induction cs arbitrary: s h) (simp_all split: prod.splits sum.splits)

lemma group_tables_run:
  "group_tables s h ts =
     run_visits s h (concat (map (\<lambda>t. map (Pair t) (children (node_at h t))) ts))"
proof (induction ts arbitrary: s h)
  case Nil
  then show ?case by simp
next
  case (Cons t ts)
  obtain r s1 where r: "run_visits s h (map (Pair t) (children (node_at h t))) = (r, s1)"
    by (cases "run_visits s h (map (Pair t) (children (node_at h t)))")
  show ?case
  proof (cases r)
    case (Inl e)
    with r show ?thesis
      by (simp add: group_columns_run run_visits_append)
  next
    case (Inr h1)
    with r have "regrouped h h1"
      by (auto dest: run_visits_frame)
    then have "children (node_at h1 x) = children (node_at h x)" for x
      by (rule regrouped_fields)
    with r Inr Cons.IH [of s1 h1] show ?thesis
      by (simp add: group_columns_run run_visits_append)
  qed
qed

lemma setup_grouping_options_run:
  "setup_grouping_options s h db_node = run_visits s h (visits h db_node)"
  by (simp add: setup_grouping_options_def visits_def group_tables_run)

lemma run_visits_answered:
  assumes "\<forall>v \<in> set vs. answered s h v"
  shows "\<exists>h' s'. run_visits s h vs = (Inr h', s') \<and> regrouped h h' \<and> respond s' = respond s \<and>
           sent s' = sent s @ map (probe_statement h) (filter (\<lambda>v. sends_probe h (snd v)) vs) \<and>
           (\<forall>x. x \<notin> snd ` set vs \<longrightarrow> group (node_at h' x) = group (node_at h x))"
  using assms
proof (induction vs arbitrary: s h)
  case Nil
  then show ?case by (simp add: regrouped_refl)
next
  case (Cons v vs)
  from Cons.prems have "answered s h (fst v, snd v)" by simp
  from group_column_answered [OF this] obtain h1 s1 where
    1: "group_column s h (fst v) (snd v) = (Inr h1, s1)" by blast
  from group_column_frame [OF 1] have
    f: "regrouped h h1" "\<And>x. x \<noteq> snd v \<Longrightarrow> group (node_at h1 x) = group (node_at h x)"
      "respond s1 = respond s"
      "sent s1 = sent s @ (if sends_probe h (snd v) then [probe_statement h (fst v, snd v)] else [])"
    by simp_all
  from Cons.prems f(1,3) have "\<forall>u \<in> set vs. answered s1 h1 u"
    by (simp add: regrouped_answered)
  from Cons.IH [OF this] obtain h' s' where
    2: "run_visits s1 h1 vs = (Inr h', s')" "regrouped h1 h'" "respond s' = respond s1"
      "sent s' = sent s1 @ map (probe_statement h1) (filter (\<lambda>v. sends_probe h1 (snd v)) vs)"
      "\<And>x. x \<notin> snd ` set vs \<Longrightarrow> group (node_at h' x) = group (node_at h1 x)"
    by blast
  have a: "run_visits s h (v # vs) = (Inr h', s')"
    using 1 2(1) by simp
  have b: "regrouped h h'"
    using f(1) 2(2) by (rule regrouped_trans)
  have c: "respond s' = respond s"
    using f(3) 2(3) by simp
  have d: "sent s' = sent s @ map (probe_statement h) (filter (\<lambda>v. sends_probe h (snd v)) (v # vs))"
    using f(1) f(4) 2(4) by (simp add: regrouped_sends_probe regrouped_probe_statement)
  have e: "\<forall>x. x \<notin> snd ` set (v # vs) \<longrightarrow> group (node_at h' x) = group (node_at h x)"
    using f(2) 2(5) by simp
  from a b c d e show ?case by blast
qed

lemmas shared_defs = shared_example_def shared_counts_def table_record_def column_record_def
  blank_def node_at_def

lemma shared_types:
  "grouping_type shared_example 3 = Inr ''varchar''"
  "grouping_type shared_example 4 = Inr ''char''"
  "grouping_type shared_example 5 = Inr ''varchar_sm''"
  by (simp_all add: shared_defs grouping_type_def parse_type_def first_digits_def is_digit_def
      int_of_digits_def)

lemma shared_visits: "visits shared_example 0 = [(1, 3), (1, 4), (2, 4), (2, 5)]"
  by (simp add: visits_def shared_defs)




subsection \<open>C6: searching for a table that no chain leads to\<close>

lemma reaches_trans: "reaches h b c \<Longrightarrow> reaches h a b \<Longrightarrow> reaches h a c"
  by (induction rule: reaches.induct) (auto intro: reaches.intros)

lemma reaches_hop_first:
  "link_of h a l \<Longrightarrow> t \<in> set (parents (node_at h l)) \<Longrightarrow> reaches h t c \<Longrightarrow> reaches h a c"
  by (meson reaches.intros reaches_trans)


lemma searchable_hop:
  "searchable h a b \<Longrightarrow> link_of h a l \<Longrightarrow> t \<in> set (parents (node_at h l)) \<Longrightarrow> searchable h t b"
  unfolding searchable_def by (meson reaches_hop_first)

lemma candidate_links_link_of: "l \<in> set (candidate_links h t pk) \<Longrightarrow> primary_key (node_at h t) = Some pk \<Longrightarrow> link_of h t l"
  by (auto simp add: candidate_links_def link_of_def split: if_splits)


lemma searchable_not_target: "searchable h a b \<Longrightarrow> a \<noteq> b"
  by (auto simp add: searchable_def intro: reaches.intros)

lemma searchable_links:
  assumes "searchable h a b"
  shows "\<exists>pk. primary_key (node_at h a) = Some pk \<and> table_links h a = Inr (candidate_links h a pk)"
proof -
  from assms have "primary_key (node_at h a) \<noteq> None"
    by (auto simp add: searchable_def intro: reaches.intros)
  then obtain pk where "primary_key (node_at h a) = Some pk" by auto
  then show ?thesis by (auto simp add: table_links_candidates)
qed

lemma search_exhausted:
  "searchable h1 c1 t1 \<longrightarrow> (\<forall>p. cp = Some p \<longrightarrow> [] \<notin> set p) \<longrightarrow>
     find_path h1 c1 t1 cp = Inr None"
  "searchable h2 c2 t2 \<longrightarrow> [] \<notin> set p2 \<longrightarrow> (\<forall>l \<in> set links. link_of h2 c2 l) \<longrightarrow>
     links_loop h2 c2 t2 p2 links = Inr None"
  "searchable h3 c3 t3 \<longrightarrow> [] \<notin> set p3 \<longrightarrow> link_of h3 c3 link \<longrightarrow>
     set tables \<subseteq> set (parents (node_at h3 link)) \<longrightarrow>
     tables_loop h3 c3 t3 p3 link tables = Inr None"
proof (induction h1 c1 t1 cp and h2 c2 t2 p2 links and h3 c3 t3 p3 link tables
    rule: find_path_links_loop_tables_loop.induct)
  case (1 h curr_table target_table current_path)
  show ?case
  proof (intro impI)
    assume s: "searchable h curr_table target_table"
      and wf: "\<forall>p. current_path = Some p \<longrightarrow> [] \<notin> set p"
    let ?p = "case current_path of None \<Rightarrow> [] | Some p \<Rightarrow> p"
    have e: "[] \<notin> set ?p"
      using wf by (cases current_path) auto
    then have prev: "previous_tables ?p = Inr (map hd ?p)"
      by (simp add: previous_tables_def)
    from searchable_links [OF s] obtain pk where
      pk: "primary_key (node_at h curr_table) = Some pk"
      and tl: "table_links h curr_table = Inr (candidate_links h curr_table pk)"
      by blast
    have ne: "curr_table \<noteq> target_table"
      using s by (rule searchable_not_target)
    have "links_loop h curr_table target_table ?p (candidate_links h curr_table pk) = Inr None"
      using "1.IH" [OF refl prev ne tl] s e pk
      by (auto dest: candidate_links_link_of)
    then show "find_path h curr_table target_table current_path = Inr None"
      using prev ne tl by simp
  qed
next
  case (2 h curr_table target_table current_path)
  show ?case by simp
next
  case (3 h curr_table target_table current_path link rest)
  show ?case
  proof (intro impI)
    assume s: "searchable h curr_table target_table"
      and e: "[] \<notin> set current_path"
      and ls: "\<forall>l \<in> set (link # rest). link_of h curr_table l"
    have lk: "link_of h curr_table link" using ls by simp
    have nt: "target_table \<notin> set (parents (node_at h link))"
    proof
      assume "target_table \<in> set (parents (node_at h link))"
      then have "reaches h curr_table target_table"
        using lk by (meson reaches.intros)
      then show False using s by (simp add: searchable_def)
    qed
    have t: "tables_loop h curr_table target_table current_path link (parents (node_at h link)) = Inr None"
      using "3.IH"(1) [OF nt] s e lk by simp
    have "links_loop h curr_table target_table current_path rest = Inr None"
      using "3.IH"(2) [OF nt t] s e ls by simp
    then show "links_loop h curr_table target_table current_path (link # rest) = Inr None"
      using nt t by simp
  qed
next
  case (4 h curr_table target_table current_path link)
  show ?case by simp
next
  case (5 h curr_table target_table current_path link table rest)
  show ?case
  proof (intro impI)
    assume s: "searchable h curr_table target_table"
      and e: "[] \<notin> set current_path"
      and lk: "link_of h curr_table link"
      and sub: "set (table # rest) \<subseteq> set (parents (node_at h link))"
    have prev: "previous_tables current_path = Inr (map hd current_path)"
      using e by (simp add: previous_tables_def)
    let ?new = "current_path @ [[node_id (node_at h table), node_id (node_at h link)]]"
    have st: "searchable h table target_table"
      using s lk sub by (auto intro: searchable_hop)
    show "tables_loop h curr_table target_table current_path link (table # rest) = Inr None"
    proof (cases "node_id (node_at h table) \<notin> set (map hd current_path) \<and> table \<noteq> curr_table")
      case True
      have f: "find_path h table target_table (Some ?new) = Inr None"
        using "5.IH"(1) [OF prev True] st e by simp
      have "tables_loop h curr_table target_table current_path link rest = Inr None"
        using "5.IH"(2) [OF prev True f] s e lk sub by simp
      then show ?thesis
        using prev True f by (simp del: find_path.simps)
    next
      case False
      have "tables_loop h curr_table target_table current_path link rest = Inr None"
        using "5.IH"(4) [OF prev False] s e lk sub by simp
      then show ?thesis
        using prev False by (auto simp del: find_path.simps)
    qed
  qed
qed

lemma version_alone: "reaches webs_example 6 t \<Longrightarrow> t = 6"
  by (induction rule: reaches.induct) (auto simp add: example_defs link_of_def)

lemma gene_and_phage: "reaches webs_example 2 t \<Longrightarrow> t = 1 \<or> t = 2"
  by (induction rule: reaches.induct) (auto simp add: example_defs link_of_def)

text \<open>
  C6, as stated, fails on a table without primary key: \<^verbatim>\<open>version\<close> shares no column
  with any table, so no chain leads from it to \<^verbatim>\<open>phage\<close>, and the search from it raises
  \<^verbatim>\<open>AttributeError\<close> where the claim has it return the no-path result.
\<close>

theorem find_path_unreachable_counterexample:
  "(6::nat) \<noteq> 1 \<and> \<not> reaches webs_example 6 1 \<and>
   find_path webs_example 6 1 None = Inl AttributeError"
proof -
  have "\<not> reaches webs_example 6 1"
    using version_alone [of 1] by auto
  moreover have "find_path webs_example 6 1 None = Inl AttributeError"
    by (simp add: example_defs previous_tables_def table_links_def)
  ultimately show ?thesis by simp
qed

text \<open>
  C6, amended. For distinct tables \<open>a\<close> and \<open>b\<close> such that no chain of shared-key columns
  leads from \<open>a\<close> to \<open>b\<close>, and such that every table a chain leads to from \<open>a\<close> (\<open>a\<close>
  included) has its primary key set, \<^verbatim>\<open>find_path(a, b)\<close> returns \<^verbatim>\<open>None\<close>: no error and
  no partial path.
\<close>

theorem find_path_unreachable:
  assumes "a \<noteq> b"
    and "\<not> reaches h a b"
    and "\<forall>t. reaches h a t \<longrightarrow> primary_key (node_at h t) \<noteq> None"
  shows "find_path h a b None = Inr None"
  using search_exhausted(1) [of h a b None] assms by (simp add: searchable_def)

theorem find_path_unreachable_witness:
  "(2::nat) \<noteq> 6 \<and> \<not> reaches webs_example 2 6 \<and>
   primary_key (node_at webs_example 1) \<noteq> None \<and>
   primary_key (node_at webs_example 2) \<noteq> None \<and>
   find_path webs_example 2 6 None = Inr None"
proof -
  have d: "(2::nat) \<noteq> 6" by simp
  have n: "\<not> reaches webs_example 2 6"
    using gene_and_phage [of 6] by auto
  have k: "primary_key (node_at webs_example 1) \<noteq> None" "primary_key (node_at webs_example 2) \<noteq> None"
    by (simp_all add: example_defs)
  have a: "\<forall>t. reaches webs_example 2 t \<longrightarrow> primary_key (node_at webs_example t) \<noteq> None"
    using gene_and_phage k by blast
  from find_path_unreachable [OF d n a] d n k show ?thesis by simp
qed

subsection \<open>C1: the canonical column after \<^verbatim>\<open>setup_db_tree_webs\<close>\<close>

lemma fst_remove_child:
  "fst (remove_child h v (Some c)) =
     (if c \<in> set (children (node_at h v)) \<and> v \<in> set (parents (node_at h c)) then None
      else Some ValueError)"
  by (auto simp add: remove_child_def Let_def node_at_put)

lemma node_id_add_parent [simp]: "node_id (node_at (add_parent h v p) x) = node_id (node_at h x)"
  by (simp add: add_parent_def Let_def node_at_put)

lemma node_id_remove_child [simp]:
  "node_id (node_at (snd (remove_child h v co)) x) = node_id (node_at h x)"
  by (cases co) (auto simp add: remove_child_def Let_def node_at_put)

lemma scan_id_ids:
  "(\<And>x. node_id (node_at h' x) = node_id (node_at h x)) \<Longrightarrow> scan_id h' i found cs = scan_id h i found cs"
  by (induction cs arbitrary: found) auto

lemma scan_id_snoc:
  "scan_id h i found (cs @ [c]) =
     (if Str (node_id (node_at h c)) = i then Some c else scan_id h i found cs)"
  by (induction cs arbitrary: found) auto

lemma scan_id_Some:
  "scan_id h i None cs = Some c \<Longrightarrow> c \<in> set cs \<and> Str (node_id (node_at h c)) = i"
proof (induction cs rule: rev_induct)
  case Nil
  then show ?case by simp
next
  case (snoc x xs)
  then show ?case by (auto simp add: scan_id_snoc split: if_splits)
qed

lemma linked_add_parent: "linked h \<Longrightarrow> v < length h \<Longrightarrow> p < length h \<Longrightarrow> linked (add_parent h v p)"
  by (simp add: linked_def closed_add_parent paired_add_parent)

lemma linked_remove_child: "linked h \<Longrightarrow> linked (snd (remove_child h v co))"
  by (simp add: linked_def closed_remove_child paired_remove_child)

lemma relink_parents_ok:
  "linked h \<Longrightarrow> pk < length h \<Longrightarrow> fk < length h \<Longrightarrow>
   \<exists>h'. relink_parents h pk fk i = Inr h' \<and> linked h' \<and> length h' = length h \<and>
        (\<forall>x. node_id (node_at h' x) = node_id (node_at h x)) \<and>
        set (parents (node_at h pk)) \<subseteq> set (parents (node_at h' pk)) \<and>
        (\<forall>x \<in> set (parents (node_at h pk)). children (node_at h' x) = children (node_at h x))"
proof (induction h pk fk i rule: relink_parents.induct)
  case (1 h pk fk i)
  show ?case
  proof (cases "i < length (parents (node_at h fk))")
    case False
    then show ?thesis using "1.prems" by simp
  next
    case True
    let ?parent = "parents (node_at h fk) ! i"
    have pin: "?parent \<in> set (parents (node_at h fk))"
      using True by simp
    have plen: "?parent < length h"
      using "1.prems"(1) pin by (auto simp add: linked_def dest: closed_parents)
    show ?thesis
    proof (cases "?parent \<in> set (parents (node_at h pk))")
      case True
      with \<open>i < length (parents (node_at h fk))\<close> "1.IH"(2) [OF _ refl _ "1.prems"] show ?thesis
        by simp
    next
      case False
      let ?h1 = "add_parent h pk ?parent"
      let ?h2 = "snd (remove_child ?h1 ?parent (Some fk))"
      have ne: "pk \<noteq> fk" using False pin by auto
      have l1: "linked ?h1"
        using "1.prems" plen by (simp add: linked_add_parent)
      have c: "fk \<in> set (children (node_at h ?parent))"
        using "1.prems"(1) pin by (simp add: linked_def paired_mem)
      have ok: "fst (remove_child ?h1 ?parent (Some fk)) = None"
        using c pin ne "1.prems" plen
        by (simp add: fst_remove_child children_add_parent parents_add_parent)
      then have rc: "remove_column (column_add_table h pk ?parent) ?parent (Some fk) = (None, ?h2)"
        by (simp add: remove_column_def column_add_table_def prod_eq_iff)
      have l2: "linked ?h2" using l1 by (rule linked_remove_child)
      have len: "length ?h2 = length h" by simp
      from "1.IH"(1) [OF True refl False rc [symmetric] refl l2] "1.prems" len
      obtain h' where h': "relink_parents ?h2 pk fk (Suc i) = Inr h'" "linked h'"
        "length h' = length ?h2" "\<forall>x. node_id (node_at h' x) = node_id (node_at ?h2 x)"
        "set (parents (node_at ?h2 pk)) \<subseteq> set (parents (node_at h' pk))"
        "\<forall>x \<in> set (parents (node_at ?h2 pk)). children (node_at h' x) = children (node_at ?h2 x)"
        by auto
      have p2: "parents (node_at ?h2 pk) = parents (node_at h pk) @ [?parent]"
        using ne "1.prems" plen by (simp add: parents_remove_child parents_add_parent)
      have c2: "x \<in> set (parents (node_at h pk)) \<Longrightarrow> children (node_at ?h2 x) = children (node_at h x)" for x
        using False "1.prems" plen
        by (auto simp add: children_remove_child children_add_parent)
      have run: "relink_parents h pk fk i = Inr h'"
        using True False rc h'(1) by (subst relink_parents.simps) simp
      show ?thesis
        using run h' p2 c2 len by (auto simp del: relink_parents.simps)
    qed
  qed
qed


lemma relink_parents_same_aux: "pk = fk \<longrightarrow> relink_parents h pk fk i = Inr h"
proof (induction h pk fk i rule: relink_parents.induct)
  case (1 h pk fk i)
  show ?case
  proof (intro impI)
    assume e: "pk = fk"
    show "relink_parents h pk fk i = Inr h"
    proof (cases "i < length (parents (node_at h fk))")
      case True
      then have m: "parents (node_at h fk) ! i \<in> set (parents (node_at h pk))"
        using e by simp
      then have "\<not> parents (node_at h fk) ! i \<notin> set (parents (node_at h pk))" by simp
      from "1.IH"(2) [OF True refl this] e have "relink_parents h pk fk (Suc i) = Inr h"
        by simp
      with True m show ?thesis
        by (subst relink_parents.simps) simp
    next
      case False
      then show ?thesis by simp
    qed
  qed
qed

lemma relink_parents_same: "relink_parents h pk pk i = Inr h"
  using relink_parents_same_aux [of pk pk h i] by simp

lemma linked_same_edges:
  assumes "linked h" "length h' = length h"
    "\<And>x. parents (node_at h' x) = parents (node_at h x)"
    "\<And>x. children (node_at h' x) = children (node_at h x)"
  shows "linked h'"
  using assms by (simp add: linked_def closed_def paired_def)

lemma linked_children: "linked h \<Longrightarrow> w \<in> set (children (node_at h v)) \<Longrightarrow> w < length h"
  by (simp add: linked_def closed_children)

lemma linked_mem:
  "linked h \<Longrightarrow> w \<in> set (children (node_at h v)) \<longleftrightarrow> v \<in> set (parents (node_at h w))"
  by (simp add: linked_def paired_mem)

lemma remove1_snoc_mem: "x \<in> set xs \<Longrightarrow> remove1 x (xs @ [y]) = remove1 x xs @ [y]"
  by (simp add: remove1_append)

lemma linked_same_edge_lists:
  assumes "linked h" "map parents h' = map parents h" "map children h' = map children h"
  shows "linked h'"
proof (rule linked_same_edges [OF assms(1)])
  show len: "length h' = length h"
    using assms(2) by (metis length_map)
  show "parents (node_at h' x) = parents (node_at h x)" for x
  proof (cases "x < length h")
    case True
    then have "map parents h' ! x = map parents h ! x" using assms(2) by simp
    then show ?thesis using True len by (simp add: node_at_def)
  next
    case False
    then show ?thesis using len by (simp add: node_at_def)
  qed
  show "children (node_at h' x) = children (node_at h x)" for x
  proof (cases "x < length h")
    case True
    then have "map children h' ! x = map children h ! x" using assms(3) by simp
    then show ?thesis using True len by (simp add: node_at_def)
  next
    case False
    then show ?thesis using len by (simp add: node_at_def)
  qed
qed

lemma length_alloc [simp]:
  "length (snd (Node h i)) = Suc (length h)"
  "length (snd (TableNode h i)) = Suc (length h)"
  "length (snd (ColumnNode h i ty nl k)) = Suc (length h)"
  by (simp_all add: Node_def TableNode_def ColumnNode_def)

lemma built_leaves_edges: "built leaves_edges"
  unfolding leaves_edges_def add_column_def add_table_def
  by (intro built.intros) simp_all

lemma linked_leaves_example: "linked leaves_example"
proof (rule linked_same_edge_lists [OF built_linked [OF built_leaves_edges]])
  show "map parents leaves_example = map parents leaves_edges"
    by (simp add: example_defs leaves_edges_def add_column_def add_table_def add_child_def
        Node_def TableNode_def ColumnNode_def put_def Let_def)
  show "map children leaves_example = map children leaves_edges"
    by (simp add: example_defs leaves_edges_def add_column_def add_table_def add_child_def
        Node_def TableNode_def ColumnNode_def put_def Let_def)
qed

text \<open>
  One constraint, on any graph whose edges are stored on both sides and where \<open>table\<close>
  and \<open>ref_table\<close> both resolve \<open>col\<close> (to \<open>pk\<close> and to the duplicate \<open>fk\<close>): the body
  of the loop succeeds, and right after it both tables resolve \<open>col\<close> to \<open>pk\<close>, which
  has both among its parents.
\<close>

lemma link_foreign_key_step:
  assumes lk: "linked h"
    and cn: "field dict ''COLUMN_NAME'' = Inr col"
    and tn: "field dict ''TABLE_NAME'' = Inr ref_name"
    and gpk: "get_column h table col = Some pk"
    and grt: "get_table h db_node ref_name = Some ref_table"
    and gfk: "get_column h ref_table col = Some fk"
  shows "\<exists>h'. link_foreign_key h db_node table dict = Inr h' \<and> linked h' \<and>
           get_column h' table col = Some pk \<and>
           table \<in> set (parents (node_at h' pk)) \<and>
           ref_table \<in> set (parents (node_at h' pk)) \<and>
           get_column h' ref_table col = Some pk \<and>
           (fk \<noteq> pk \<longrightarrow>
              count_list (children (node_at h' ref_table)) fk =
              count_list (children (node_at h ref_table)) fk - 1)"
proof -
  from gpk have pkc: "pk \<in> set (children (node_at h table))" and pkid: "Str (node_id (node_at h pk)) = col"
    using scan_id_Some by (auto simp add: get_column_def get_child_def)
  from gfk have fkc: "fk \<in> set (children (node_at h ref_table))"
    using scan_id_Some by (auto simp add: get_column_def get_child_def)
  from grt have rtc: "ref_table \<in> set (children (node_at h db_node))"
    using scan_id_Some by (auto simp add: get_table_def get_child_def)
  have pkl: "pk < length h" and fkl: "fk < length h" and rtl: "ref_table < length h"
    using lk pkc fkc rtc by (auto dest: linked_children)
  have tpk: "table \<in> set (parents (node_at h pk))"
    using lk pkc by (simp add: linked_mem)
  define h1 where "h1 = column_add_table h pk ref_table"
  define h2 where "h2 = (if Some fk = primary_key (node_at h1 ref_table)
             then put h1 ref_table ((node_at h1 ref_table)\<lparr>primary_key := Some pk\<rparr>) else h1)"
  have l1: "linked h1"
    using lk pkl rtl by (simp add: h1_def column_add_table_def linked_add_parent)
  have len2: "length h2 = length h"
    by (simp add: h2_def h1_def column_add_table_def)
  have par2: "parents (node_at h2 x) = (if x = pk then parents (node_at h pk) @ [ref_table]
                else parents (node_at h x))" for x
    using pkl rtl by (simp add: h2_def h1_def column_add_table_def node_at_put parents_add_parent)
  have chi2: "children (node_at h2 x) = (if x = ref_table then children (node_at h ref_table) @ [pk]
                else children (node_at h x))" for x
    using pkl rtl by (simp add: h2_def h1_def column_add_table_def node_at_put children_add_parent)
  have id2: "node_id (node_at h2 x) = node_id (node_at h x)" for x
    by (simp add: h2_def h1_def column_add_table_def node_at_put)
  have l2: "linked h2"
    using l1 by (rule linked_same_edges) (simp_all add: h2_def node_at_put)
  obtain h3 where h3: "relink_parents h2 pk fk 0 = Inr h3" "linked h3" "length h3 = length h2"
      "\<forall>x. node_id (node_at h3 x) = node_id (node_at h2 x)"
      "set (parents (node_at h2 pk)) \<subseteq> set (parents (node_at h3 pk))"
      "\<forall>x \<in> set (parents (node_at h2 pk)). children (node_at h3 x) = children (node_at h2 x)"
      and same: "pk = fk \<longrightarrow> h3 = h2"
  proof (cases "pk = fk")
    case True
    then show ?thesis
      using that [of h2] l2 by (simp add: relink_parents_same del: relink_parents.simps)
  next
    case False
    from relink_parents_ok [OF l2, of pk fk 0] pkl fkl len2
    obtain h3 where "relink_parents h2 pk fk 0 = Inr h3" "linked h3" "length h3 = length h2"
      "\<forall>x. node_id (node_at h3 x) = node_id (node_at h2 x)"
      "set (parents (node_at h2 pk)) \<subseteq> set (parents (node_at h3 pk))"
      "\<forall>x \<in> set (parents (node_at h2 pk)). children (node_at h3 x) = children (node_at h2 x)"
      by (auto simp del: relink_parents.simps)
    then show ?thesis using that [of h3] False by blast
  qed
  have chi3: "x = table \<or> x = ref_table \<Longrightarrow> children (node_at h3 x) = children (node_at h2 x)" for x
    using h3(6) tpk by (auto simp add: par2)
  have fk3: "fk \<in> set (children (node_at h3 ref_table))"
    using chi3 [of ref_table] fkc by (simp add: chi2)
  then have rt3: "ref_table \<in> set (parents (node_at h3 fk))"
    using h3(2) by (simp add: linked_mem)
  let ?h4 = "snd (remove_child h3 ref_table (Some fk))"
  have ok: "remove_column h3 ref_table (Some fk) = (None, ?h4)"
    using fk3 rt3 by (simp add: remove_column_def prod_eq_iff fst_remove_child)
  have "link_foreign_key h db_node table dict =
          (case relink_parents h2 pk fk 0 of
             Inl e \<Rightarrow> Inl e
           | Inr h3 \<Rightarrow>
               (case remove_column h3 ref_table (Some fk) of
                  (Some e, h4) \<Rightarrow> Inl e
                | (None, h4) \<Rightarrow> Inr h4))"
    using cn tn gpk grt gfk
    by (simp add: link_foreign_key_def Let_def h2_def h1_def del: relink_parents.simps)
  then have run: "link_foreign_key h db_node table dict = Inr ?h4"
    using h3(1) ok by (simp del: relink_parents.simps)
  have l4: "linked ?h4"
    using h3(2) by (rule linked_remove_child)
  have id4: "node_id (node_at ?h4 x) = node_id (node_at h x)" for x
    using h3(4) by (simp add: id2)
  have chr: "children (node_at ?h4 ref_table) = remove1 fk (children (node_at h ref_table)) @ [pk]"
    using fk3 rt3 fkc chi3 [of ref_table]
    by (simp add: children_remove_child chi2 remove1_snoc_mem)
  have cht: "table \<noteq> ref_table \<Longrightarrow> children (node_at ?h4 table) = children (node_at h table)"
    using chi3 [of table] by (simp add: children_remove_child chi2)
  have id3: "node_id (node_at h3 x) = node_id (node_at h x)" for x
    using h3(4) by (simp add: id2)
  have g_rt: "get_column ?h4 ref_table col = Some pk"
    using pkid by (simp add: get_column_def get_child_def chr scan_id_snoc id3)
  have g_t: "get_column ?h4 table col = Some pk"
  proof (cases "table = ref_table")
    case True
    then show ?thesis using g_rt by simp
  next
    case False
    have "scan_id ?h4 col None (children (node_at h table)) = scan_id h col None (children (node_at h table))"
      by (rule scan_id_ids) (rule id4)
    then show ?thesis
      using gpk cht [OF False] by (simp add: get_column_def get_child_def)
  qed
  have p4: "table \<in> set (parents (node_at ?h4 pk)) \<and> ref_table \<in> set (parents (node_at ?h4 pk))"
  proof (cases "pk = fk")
    case False
    then have "parents (node_at ?h4 pk) = parents (node_at h3 pk)"
      by (simp add: parents_remove_child)
    then show ?thesis
      using h3(5) tpk by (auto simp add: par2)
  next
    case True
    with same have e: "h3 = h2" by simp
    have rin: "ref_table \<in> set (parents (node_at h pk))"
      using lk fkc True by (simp add: linked_mem)
    have "parents (node_at ?h4 fk) = remove1 ref_table (parents (node_at h3 fk))"
      using fk3 rt3 by (simp add: parents_remove_child)
    also have "parents (node_at h3 fk) = parents (node_at h pk) @ [ref_table]"
      unfolding e using True par2 [of pk] by simp
    finally have "parents (node_at ?h4 pk) = remove1 ref_table (parents (node_at h pk)) @ [ref_table]"
      using rin True by (simp add: remove1_snoc_mem)
    then show ?thesis
      using tpk by (cases "table = ref_table") simp_all
  qed
  have cnt: "fk \<noteq> pk \<longrightarrow> count_list (children (node_at ?h4 ref_table)) fk =
              count_list (children (node_at h ref_table)) fk - 1"
    using fkc by (simp add: chr count_remove1)
  from run l4 g_t g_rt p4 cnt show ?thesis by blast
qed

text \<open>When the referencing column has the referencing table as only parent, the loop
  over its parents moves nothing, and the body of the loop leaves all other lists as
  they are.\<close>

lemma scan_id_remove1:
  "Str (node_id (node_at h x)) \<noteq> i \<Longrightarrow> scan_id h i found (remove1 x cs) = scan_id h i found cs"
  by (induction cs arbitrary: found) auto

lemma relink_parents_single:
  assumes "parents (node_at h fk) = [r]" "r \<in> set (parents (node_at h pk))"
  shows "relink_parents h pk fk 0 = Inr h"
proof -
  have "relink_parents h pk fk (Suc 0) = Inr h"
    using assms by (subst relink_parents.simps) (simp del: relink_parents.simps)
  then show ?thesis
    using assms by (subst relink_parents.simps) (simp del: relink_parents.simps)
qed

lemma resolve_Some_iff:
  "resolve h db_node c = Some k \<longleftrightarrow>
     (\<exists>name. field (snd c) ''COLUMN_NAME'' = Inr (link_column k) \<and>
        field (snd c) ''TABLE_NAME'' = Inr name \<and>
        get_table h db_node name = Some (link_table k) \<and>
        get_column h (fst c) (link_column k) = Some (link_primary k) \<and>
        get_column h (link_table k) (link_column k) = Some (link_foreign k))"
  by (cases k) (auto simp add: resolve_def split: sum.splits option.splits)

lemma resolve_nodes:
  assumes "resolve h db_node c = Some k"
  shows "Str (node_id (node_at h (link_primary k))) = link_column k"
    and "Str (node_id (node_at h (link_foreign k))) = link_column k"
    and "link_table k \<in> set (children (node_at h db_node))"
    and "link_primary k \<in> set (children (node_at h (fst c)))"
    and "link_foreign k \<in> set (children (node_at h (link_table k)))"
  using assms scan_id_Some
  by (auto simp add: resolve_Some_iff get_column_def get_table_def get_child_def)

lemma link_foreign_key_single:
  assumes lk: "linked h"
    and rs: "resolve h db_node (table, dict) = Some k"
    and single: "parents (node_at h (link_foreign k)) = [link_table k]"
    and ne: "link_primary k \<noteq> link_foreign k"
  shows "\<exists>h'. link_foreign_key h db_node table dict = Inr h' \<and> linked h' \<and> relinked h h' k"
proof -
  define col ref_table pk fk where
    "col = link_column k" and "ref_table = link_table k" and "pk = link_primary k"
    and "fk = link_foreign k"
  note d = col_def ref_table_def pk_def fk_def
  from rs obtain ref_name where
    cn: "field dict ''COLUMN_NAME'' = Inr col"
    and tn: "field dict ''TABLE_NAME'' = Inr ref_name"
    and grt: "get_table h db_node ref_name = Some ref_table"
    and gpk: "get_column h table col = Some pk"
    and gfk: "get_column h ref_table col = Some fk"
    by (auto simp add: resolve_Some_iff d)
  from resolve_nodes [OF rs] have
    rtc: "ref_table \<in> set (children (node_at h db_node))"
    and pkc: "pk \<in> set (children (node_at h table))"
    and fkc: "fk \<in> set (children (node_at h ref_table))"
    by (simp_all add: d)
  have sg: "parents (node_at h fk) = [ref_table]" and nef: "pk \<noteq> fk"
    using single ne by (simp_all add: d)
  have pkl: "pk < length h" and fkl: "fk < length h" and rtl: "ref_table < length h"
    using lk pkc fkc rtc by (auto dest: linked_children)
  define h1 where "h1 = column_add_table h pk ref_table"
  define h2 where "h2 = (if Some fk = primary_key (node_at h1 ref_table)
             then put h1 ref_table ((node_at h1 ref_table)\<lparr>primary_key := Some pk\<rparr>) else h1)"
  have l1: "linked h1"
    using lk pkl rtl by (simp add: h1_def column_add_table_def linked_add_parent)
  have par2: "parents (node_at h2 x) = (if x = pk then parents (node_at h pk) @ [ref_table]
                else parents (node_at h x))" for x
    using pkl rtl by (simp add: h2_def h1_def column_add_table_def node_at_put parents_add_parent)
  have chi2: "children (node_at h2 x) = (if x = ref_table then children (node_at h ref_table) @ [pk]
                else children (node_at h x))" for x
    using pkl rtl by (simp add: h2_def h1_def column_add_table_def node_at_put children_add_parent)
  have id2: "node_id (node_at h2 x) = node_id (node_at h x)" for x
    by (simp add: h2_def h1_def column_add_table_def node_at_put)
  have l2: "linked h2"
    using l1 by (rule linked_same_edges) (simp_all add: h2_def node_at_put)
  have h3: "relink_parents h2 pk fk 0 = Inr h2"
    using sg nef by (intro relink_parents_single [of _ _ ref_table]) (simp_all add: par2)
  have fk2: "fk \<in> set (children (node_at h2 ref_table))"
    using fkc by (simp add: chi2)
  have rt2: "ref_table \<in> set (parents (node_at h2 fk))"
    using sg nef by (simp add: par2)
  let ?h4 = "snd (remove_child h2 ref_table (Some fk))"
  have ok: "remove_column h2 ref_table (Some fk) = (None, ?h4)"
    using fk2 rt2 by (simp add: remove_column_def prod_eq_iff fst_remove_child)
  have "link_foreign_key h db_node table dict =
          (case relink_parents h2 pk fk 0 of
             Inl e \<Rightarrow> Inl e
           | Inr h3 \<Rightarrow>
               (case remove_column h3 ref_table (Some fk) of
                  (Some e, h4) \<Rightarrow> Inl e
                | (None, h4) \<Rightarrow> Inr h4))"
    using cn tn gpk grt gfk
    by (simp add: link_foreign_key_def Let_def h2_def h1_def del: relink_parents.simps)
  then have run: "link_foreign_key h db_node table dict = Inr ?h4"
    using h3 ok by (simp del: relink_parents.simps)
  have l4: "linked ?h4"
    using l2 by (rule linked_remove_child)
  have id4: "node_id (node_at ?h4 x) = node_id (node_at h x)" for x
    by (simp add: id2)
  have ch4: "children (node_at ?h4 x) =
            (if x = ref_table then remove1 fk (children (node_at h ref_table)) @ [pk]
             else children (node_at h x))" for x
    using fk2 fkc by (simp add: children_remove_child chi2 remove1_snoc_mem)
  have pa4: "parents (node_at ?h4 x) =
            (if x = pk then parents (node_at h pk) @ [ref_table]
             else if x = fk then [] else parents (node_at h x))" for x
    using fk2 rt2 sg nef by (simp add: parents_remove_child par2)
  have "relinked h ?h4 k"
    unfolding relinked_def using id4 ch4 pa4 by (simp add: d)
  with run l4 show ?thesis by blast
qed

lemma get_child_relinked:
  assumes r: "relinked h h' k"
    and "Str (node_id (node_at h (link_primary k))) = link_column k"
    and "Str (node_id (node_at h (link_foreign k))) = link_column k"
    and "\<not> (x = link_table k \<and> i = link_column k)"
  shows "get_child h' x i = get_child h x i"
proof -
  from r have ids: "\<And>y. node_id (node_at h' y) = node_id (node_at h y)"
    by (simp add: relinked_def)
  have s: "scan_id h' i found cs = scan_id h i found cs" for found cs
    by (rule scan_id_ids) (rule ids)
  show ?thesis
  proof (cases "x = link_table k")
    case False
    with r have "children (node_at h' x) = children (node_at h x)"
      by (simp add: relinked_def)
    then show ?thesis by (simp add: get_child_def s)
  next
    case True
    with assms(4) have ne: "i \<noteq> link_column k" by simp
    from r True have "children (node_at h' x) =
        remove1 (link_foreign k) (children (node_at h x)) @ [link_primary k]"
      by (simp add: relinked_def)
    then show ?thesis
      using ne assms(2,3) by (auto simp add: get_child_def s ids scan_id_snoc scan_id_remove1)
  qed
qed

lemma resolve_relinked:
  assumes r: "relinked h h' k"
    and rs: "resolve h db_node c = Some k"
    and rs2: "resolve h db_node c2 = Some k2"
    and n1: "link_primary k2 \<noteq> link_foreign k"
    and n2: "link_foreign k2 \<noteq> link_foreign k"
    and nd: "db_node \<notin> set (children (node_at h db_node))"
  shows "resolve h' db_node c2 = Some k2"
proof -
  note n = resolve_nodes [OF rs]
  have gfk: "get_column h (link_table k) (link_column k) = Some (link_foreign k)"
    using rs by (auto simp add: resolve_Some_iff)
  from rs2 obtain name where
    a: "field (snd c2) ''COLUMN_NAME'' = Inr (link_column k2)"
      "field (snd c2) ''TABLE_NAME'' = Inr name"
      "get_table h db_node name = Some (link_table k2)"
      "get_column h (fst c2) (link_column k2) = Some (link_primary k2)"
      "get_column h (link_table k2) (link_column k2) = Some (link_foreign k2)"
    by (auto simp add: resolve_Some_iff)
  have "db_node \<noteq> link_table k"
    using n(3) nd by auto
  then have t: "get_table h' db_node name = get_table h db_node name"
    unfolding get_table_def by (intro get_child_relinked [OF r n(1,2)]) simp
  have "\<not> (fst c2 = link_table k \<and> link_column k2 = link_column k)"
    using a(4) gfk n1 by auto
  then have p: "get_column h' (fst c2) (link_column k2) = get_column h (fst c2) (link_column k2)"
    unfolding get_column_def by (intro get_child_relinked [OF r n(1,2)])
  have "\<not> (link_table k2 = link_table k \<and> link_column k2 = link_column k)"
    using a(5) gfk n2 by auto
  then have f: "get_column h' (link_table k2) (link_column k2) =
      get_column h (link_table k2) (link_column k2)"
    unfolding get_column_def by (intro get_child_relinked [OF r n(1,2)])
  from a t p f show ?thesis
    unfolding resolve_Some_iff by auto
qed

lemma unified_relinked:
  assumes r: "relinked h h' k"
    and rs: "resolve h db_node c = Some k"
    and u: "unified h t0 k0"
    and n1: "link_primary k0 \<noteq> link_foreign k"
    and n2: "link_foreign k0 \<noteq> link_primary k"
  shows "unified h' t0 k0"
proof -
  note n = resolve_nodes [OF rs]
  have gfk: "get_column h (link_table k) (link_column k) = Some (link_foreign k)"
    using rs by (auto simp add: resolve_Some_iff)
  from u have
    a: "get_column h t0 (link_column k0) = Some (link_primary k0)"
      "t0 \<in> set (parents (node_at h (link_primary k0)))"
      "link_table k0 \<in> set (parents (node_at h (link_primary k0)))"
      "get_column h (link_table k0) (link_column k0) = Some (link_primary k0)"
      "link_foreign k0 \<notin> set (children (node_at h (link_table k0)))"
    by (simp_all add: unified_def)
  have "\<not> (t0 = link_table k \<and> link_column k0 = link_column k)"
    using a(1) gfk n1 by auto
  then have 1: "get_column h' t0 (link_column k0) = Some (link_primary k0)"
    unfolding get_column_def
    using get_child_relinked [OF r n(1,2), of t0 "link_column k0"] a(1)
    by (simp add: get_column_def)
  have "\<not> (link_table k0 = link_table k \<and> link_column k0 = link_column k)"
    using a(4) gfk n1 by auto
  then have 4: "get_column h' (link_table k0) (link_column k0) = Some (link_primary k0)"
    unfolding get_column_def
    using get_child_relinked [OF r n(1,2), of "link_table k0" "link_column k0"] a(4)
    by (simp add: get_column_def)
  have "set (parents (node_at h (link_primary k0))) \<subseteq> set (parents (node_at h' (link_primary k0)))"
    using r n1 by (auto simp add: relinked_def)
  with a(2,3) have 23: "t0 \<in> set (parents (node_at h' (link_primary k0)))"
    "link_table k0 \<in> set (parents (node_at h' (link_primary k0)))"
    by auto
  have 5: "link_foreign k0 \<notin> set (children (node_at h' (link_table k0)))"
    using r a(5) n2 by (auto simp add: relinked_def dest: in_remove1D)
  from 1 23 4 5 show ?thesis
    by (simp add: unified_def)
qed

lemma unified_step:
  assumes lk: "linked h"
    and r: "relinked h h' k"
    and rs: "resolve h db_node (table, dict) = Some k"
    and single: "parents (node_at h (link_foreign k)) = [link_table k]"
    and ne: "link_primary k \<noteq> link_foreign k"
  shows "unified h' table k"
proof -
  note n = resolve_nodes [OF rs]
  from r have ids: "\<And>y. node_id (node_at h' y) = node_id (node_at h y)"
    by (simp add: relinked_def)
  have s: "scan_id h' i found cs = scan_id h i found cs" for i found cs
    by (rule scan_id_ids) (rule ids)
  have gpk: "get_column h table (link_column k) = Some (link_primary k)"
    using rs by (auto simp add: resolve_Some_iff)
  have chr: "children (node_at h' (link_table k)) =
      remove1 (link_foreign k) (children (node_at h (link_table k))) @ [link_primary k]"
    using r by (simp add: relinked_def)
  have 4: "get_column h' (link_table k) (link_column k) = Some (link_primary k)"
    using n(1) by (simp add: get_column_def get_child_def chr s ids scan_id_snoc)
  have 1: "get_column h' table (link_column k) = Some (link_primary k)"
  proof (cases "table = link_table k")
    case True
    with 4 show ?thesis by simp
  next
    case False
    then show ?thesis
      using get_child_relinked [OF r n(1,2), of table "link_column k"] gpk
      by (simp add: get_column_def)
  qed
  have tp: "table \<in> set (parents (node_at h (link_primary k)))"
    using lk n(4) by (simp add: linked_mem)
  have pa: "parents (node_at h' (link_primary k)) = parents (node_at h (link_primary k)) @ [link_table k]"
    using r by (simp add: relinked_def)
  have "count_list (children (node_at h (link_table k))) (link_foreign k) =
        count_list (parents (node_at h (link_foreign k))) (link_table k)"
    using lk by (simp add: linked_def pairedD)
  then have "count_list (children (node_at h (link_table k))) (link_foreign k) = 1"
    by (simp add: single)
  then have "count_list (remove1 (link_foreign k) (children (node_at h (link_table k)))) (link_foreign k) = 0"
    by (simp add: count_remove1)
  then have "link_foreign k \<notin> set (remove1 (link_foreign k) (children (node_at h (link_table k))))"
    by (simp add: count_list_pos)
  then have 5: "link_foreign k \<notin> set (children (node_at h' (link_table k)))"
    using ne by (simp add: chr)
  from 1 4 5 tp show ?thesis
    by (simp add: unified_def pa)
qed

text \<open>Along a list of constraints without chains, a constraint stays unified once it
  is, and the constraints to come resolve as they did at the start.\<close>

lemma run_constraints_unified:
  assumes "linked h"
    and "db_node \<notin> set (children (node_at h db_node))"
    and "\<forall>c \<in> set todo. \<exists>k. resolve h db_node c = Some k \<and>
           parents (node_at h (link_foreign k)) = [link_table k]"
    and "distinct (map (\<lambda>c. link_foreign (the (resolve h db_node c))) todo)"
    and "\<forall>c \<in> set todo. \<forall>c' \<in> set todo.
           link_primary (the (resolve h db_node c)) \<noteq> link_foreign (the (resolve h db_node c'))"
    and "\<forall>d \<in> set dn. unified h (fst d) (snd d) \<and>
           (\<forall>c \<in> set todo. link_primary (snd d) \<noteq> link_foreign (the (resolve h db_node c)) \<and>
                            link_foreign (snd d) \<noteq> link_primary (the (resolve h db_node c)))"
  shows "\<exists>h'. run_constraints h db_node todo = Inr h' \<and>
           (\<forall>d \<in> set dn. unified h' (fst d) (snd d)) \<and>
           (\<forall>c \<in> set todo. unified h' (fst c) (the (resolve h db_node c)))"
  using assms
proof (induction todo arbitrary: h dn)
  case Nil
  then show ?case by simp
next
  case (Cons c rest)
  note lk = Cons.prems(1) and nd = Cons.prems(2) and A = Cons.prems(3) and S1 = Cons.prems(4)
    and S2 = Cons.prems(5) and Dn = Cons.prems(6)
  from A obtain k where rs: "resolve h db_node c = Some k"
    and single: "parents (node_at h (link_foreign k)) = [link_table k]"
    by auto
  have K: "the (resolve h db_node c) = k"
    using rs by simp
  have ne: "link_primary k \<noteq> link_foreign k"
    using S2 K by auto
  have rs': "resolve h db_node (fst c, snd c) = Some k"
    using rs by simp
  from link_foreign_key_single [OF lk rs' single ne] obtain h1 where
    run: "link_foreign_key h db_node (fst c) (snd c) = Inr h1" and l1: "linked h1"
    and r: "relinked h h1 k"
    by blast
  note n = resolve_nodes [OF rs]
  have rest: "resolve h1 db_node c2 = resolve h db_node c2 \<and>
       parents (node_at h1 (link_foreign (the (resolve h db_node c2)))) =
         [link_table (the (resolve h db_node c2))]" if m: "c2 \<in> set rest" for c2
  proof -
    from A m obtain k2 where rs2: "resolve h db_node c2 = Some k2"
      and single2: "parents (node_at h (link_foreign k2)) = [link_table k2]"
      by auto
    have n1: "link_primary k2 \<noteq> link_foreign k"
      using S2 m K rs2 by auto
    have "link_foreign k \<notin> (\<lambda>c. link_foreign (the (resolve h db_node c))) ` set rest"
      using S1 K by simp
    moreover have "link_foreign k2 \<in> (\<lambda>c. link_foreign (the (resolve h db_node c))) ` set rest"
      using m rs2 by force
    ultimately have n2: "link_foreign k2 \<noteq> link_foreign k"
      by auto
    have n3: "link_foreign k2 \<noteq> link_primary k"
      using S2 m K rs2 by (metis list.set_intros(1) list.set_intros(2) option.sel)
    have "resolve h1 db_node c2 = Some k2"
      using r rs rs2 n1 n2 nd by (rule resolve_relinked)
    moreover have "parents (node_at h1 (link_foreign k2)) = [link_table k2]"
      using r n2 n3 single2 by (simp add: relinked_def)
    ultimately show ?thesis using rs2 by simp
  qed
  then have eq: "\<And>c2. c2 \<in> set rest \<Longrightarrow> resolve h1 db_node c2 = resolve h db_node c2"
    by blast
  have "db_node \<noteq> link_table k"
    using n(3) nd by auto
  then have nd1: "db_node \<notin> set (children (node_at h1 db_node))"
    using r nd by (simp add: relinked_def)
  have A1: "\<forall>c \<in> set rest. \<exists>k. resolve h1 db_node c = Some k \<and>
           parents (node_at h1 (link_foreign k)) = [link_table k]"
  proof
    fix c2 assume m: "c2 \<in> set rest"
    with A obtain k2 where "resolve h db_node c2 = Some k2" by auto
    with rest [OF m] show "\<exists>k. resolve h1 db_node c2 = Some k \<and>
           parents (node_at h1 (link_foreign k)) = [link_table k]"
      by simp
  qed
  have me: "map (\<lambda>c. link_foreign (the (resolve h1 db_node c))) rest =
        map (\<lambda>c. link_foreign (the (resolve h db_node c))) rest"
    using eq by (intro map_cong) simp_all
  from S1 have "distinct (map (\<lambda>c. link_foreign (the (resolve h db_node c))) rest)"
    by simp
  then have S11: "distinct (map (\<lambda>c. link_foreign (the (resolve h1 db_node c))) rest)"
    by (simp only: me)
  have S21: "\<forall>c \<in> set rest. \<forall>c' \<in> set rest.
           link_primary (the (resolve h1 db_node c)) \<noteq> link_foreign (the (resolve h1 db_node c'))"
    using S2 eq by simp
  have Dn1: "\<forall>d \<in> set ((fst c, k) # dn). unified h1 (fst d) (snd d) \<and>
           (\<forall>c \<in> set rest. link_primary (snd d) \<noteq> link_foreign (the (resolve h1 db_node c)) \<and>
                            link_foreign (snd d) \<noteq> link_primary (the (resolve h1 db_node c)))"
  proof
    fix d assume "d \<in> set ((fst c, k) # dn)"
    then consider (new) "d = (fst c, k)" | (old) "d \<in> set dn" by auto
    then show "unified h1 (fst d) (snd d) \<and>
           (\<forall>c \<in> set rest. link_primary (snd d) \<noteq> link_foreign (the (resolve h1 db_node c)) \<and>
                            link_foreign (snd d) \<noteq> link_primary (the (resolve h1 db_node c)))"
    proof cases
      case new
      have u: "unified h1 (fst c) k"
        using lk r rs' single ne by (rule unified_step)
      have "\<forall>c2 \<in> set rest. link_primary k \<noteq> link_foreign (the (resolve h db_node c2)) \<and>
                            link_foreign k \<noteq> link_primary (the (resolve h db_node c2))"
        using S2 K by (metis list.set_intros(1) list.set_intros(2))
      with u new eq show ?thesis by simp
    next
      case old
      with Dn have u0: "unified h (fst d) (snd d)"
        and n1: "link_primary (snd d) \<noteq> link_foreign k"
        and n2: "link_foreign (snd d) \<noteq> link_primary k"
        and o: "\<forall>c2 \<in> set rest. link_primary (snd d) \<noteq> link_foreign (the (resolve h db_node c2)) \<and>
                            link_foreign (snd d) \<noteq> link_primary (the (resolve h db_node c2))"
        using K by auto
      have "unified h1 (fst d) (snd d)"
        using r rs u0 n1 n2 by (rule unified_relinked)
      with o eq show ?thesis by simp
    qed
  qed
  from Cons.IH [OF l1 nd1 A1 S11 S21 Dn1] obtain h' where
    run': "run_constraints h1 db_node rest = Inr h'"
    and d': "\<forall>d \<in> set ((fst c, k) # dn). unified h' (fst d) (snd d)"
    and t': "\<forall>c \<in> set rest. unified h' (fst c) (the (resolve h1 db_node c))"
    by blast
  have "run_constraints h db_node (c # rest) = Inr h'"
    using run run' by simp
  moreover have "\<forall>d \<in> set dn. unified h' (fst d) (snd d)"
    using d' by simp
  moreover have "\<forall>c2 \<in> set (c # rest). unified h' (fst c2) (the (resolve h db_node c2))"
    using d' t' eq K by simp
  ultimately show ?case by blast
qed

lemma relink_parents_ids:
  "relink_parents h pk fk i = Inr h' \<longrightarrow> node_id (node_at h' x) = node_id (node_at h x)"
proof (induction h pk fk i rule: relink_parents.induct)
  case (1 h pk fk i)
  show ?case
  proof (cases "i < length (parents (node_at h fk))")
    case False
    then show ?thesis by simp
  next
    case True
    let ?parent = "parents (node_at h fk) ! i"
    show ?thesis
    proof (cases "?parent \<in> set (parents (node_at h pk))")
      case True
      with \<open>i < length (parents (node_at h fk))\<close> "1.IH"(2) [OF _ refl] show ?thesis
        by (subst relink_parents.simps) (simp del: relink_parents.simps)
    next
      case False
      obtain e h2 where rc: "remove_column (column_add_table h pk ?parent) ?parent (Some fk) = (e, h2)"
        by (cases "remove_column (column_add_table h pk ?parent) ?parent (Some fk)")
      then have h2: "h2 = snd (remove_child (add_parent h pk ?parent) ?parent (Some fk))"
        by (simp add: remove_column_def column_add_table_def prod_eq_iff)
      show ?thesis
      proof (cases e)
        case (Some err)
        with True False rc show ?thesis
          by (subst relink_parents.simps) (simp del: relink_parents.simps)
      next
        case None
        from "1.IH"(1) [OF True refl False _ refl, of h2] rc None
        have "relink_parents h2 pk fk (Suc i) = Inr h' \<longrightarrow>
              node_id (node_at h' x) = node_id (node_at h2 x)"
          by simp
        with True False rc None show ?thesis
          by (subst relink_parents.simps) (simp add: h2 Let_def del: relink_parents.simps)
      qed
    qed
  qed
qed

lemma link_foreign_key_ids:
  assumes "link_foreign_key h db_node table dict = Inr h'"
  shows "node_id (node_at h' x) = node_id (node_at h x)"
proof -
  from assms obtain col ref_table pk fk h3 where
    a: "relink_parents (let h1 = column_add_table h pk ref_table in
          if Some fk = primary_key (node_at h1 ref_table)
          then put h1 ref_table ((node_at h1 ref_table)\<lparr>primary_key := Some pk\<rparr>) else h1)
          pk fk 0 = Inr h3"
    and b: "h' = snd (remove_column h3 ref_table (Some fk))"
    unfolding link_foreign_key_def Let_def
    by (auto split: sum.splits option.splits prod.splits simp del: relink_parents.simps)
  from relink_parents_ids a have
    "node_id (node_at h3 x) = node_id (node_at h x)"
    by (auto simp add: Let_def column_add_table_def node_at_put simp del: relink_parents.simps)
  then show ?thesis
    by (simp add: b remove_column_def)
qed

lemma run_constraints_ids:
  "run_constraints h db_node cs = Inr h' \<Longrightarrow> node_id (node_at h' x) = node_id (node_at h x)"
  by (induction cs arbitrary: h) (auto split: sum.splits simp add: link_foreign_key_ids)

lemma run_constraints_append:
  "run_constraints h db_node (xs @ ys) =
     (case run_constraints h db_node xs of
        Inl e \<Rightarrow> Inl e
      | Inr h' \<Rightarrow> run_constraints h' db_node ys)"
  by (induction xs arbitrary: h) (simp_all split: sum.splits)

lemma link_foreign_keys_run:
  "link_foreign_keys h db_node table rows =
     run_constraints h db_node (map (\<lambda>dict. (table, dict)) rows)"
  by (induction rows arbitrary: h) (simp_all split: sum.splits)

lemma webs_loop_run:
  "fst (webs_loop s h db_node ts) =
     run_constraints h db_node
       (concat (map (\<lambda>table. map (\<lambda>dict. (table, dict))
                  (respond s (foreign_key_query (database s) (node_id (node_at h table))))) ts))"
proof (induction ts arbitrary: s h)
  case Nil
  then show ?case by simp
next
  case (Cons t ts)
  let ?q = "foreign_key_query (database s) (node_id (node_at h t))"
  let ?s = "s\<lparr>sent := sent s @ [?q]\<rparr>"
  show ?case
  proof (cases "run_constraints h db_node (map (\<lambda>dict. (t, dict)) (respond s ?q))")
    case (Inl e)
    then show ?thesis
      by (simp add: execute_query_def link_foreign_keys_run run_constraints_append)
  next
    case (Inr h1)
    then have "node_id (node_at h1 x) = node_id (node_at h x)" for x
      by (rule run_constraints_ids)
    with Inr Cons.IH [of ?s h1] show ?thesis
      by (simp add: execute_query_def link_foreign_keys_run run_constraints_append)
  qed
qed

lemma setup_db_tree_webs_run:
  "fst (setup_db_tree_webs s h db_node) = run_constraints h db_node (constraints s h db_node)"
  by (simp add: setup_db_tree_webs_def constraints_def webs_loop_run)

text \<open>The schema with two tables on one key and no chain meets the conditions.\<close>

lemma built_staff_edges: "built staff_edges"
  unfolding staff_edges_def add_column_def add_table_def
  by (intro built.intros) simp_all

lemma linked_staff_leaves: "linked (staff_leaves [1, 2, 3, 4])"
proof (rule linked_same_edge_lists [OF built_linked [OF built_staff_edges]])
  show "map parents (staff_leaves [1, 2, 3, 4]) = map parents staff_edges"
    by (simp add: example_defs staff_edges_def add_column_def add_table_def add_child_def
        Node_def TableNode_def ColumnNode_def put_def Let_def)
  show "map children (staff_leaves [1, 2, 3, 4]) = map children staff_edges"
    by (simp add: example_defs staff_edges_def add_column_def add_table_def add_child_def
        Node_def TableNode_def ColumnNode_def put_def Let_def)
qed

lemma fan_constraints:
  "constraints fan_catalog (staff_leaves [1, 2, 3, 4]) 0 =
     [(1, foreign_key_row ''engineer'' ''id'' ''employee''),
      (1, foreign_key_row ''manager'' ''id'' ''employee'')]"
  by (simp add: constraints_def fan_catalog_def example_defs foreign_key_query_def apostrophe_def)

lemma fan_resolve:
  "resolve (staff_leaves [1, 2, 3, 4]) 0 (Suc 0, foreign_key_row ''engineer'' ''id'' ''employee'') =
     Some (KeyLink (Str ''id'') 2 5 6)"
  "resolve (staff_leaves [1, 2, 3, 4]) 0 (Suc 0, foreign_key_row ''manager'' ''id'' ''employee'') =
     Some (KeyLink (Str ''id'') 3 5 7)"
  by (simp_all add: resolve_def example_defs field_def get_column_def get_table_def get_child_def)

lemma fan_unchained: "unchained fan_catalog (staff_leaves [1, 2, 3, 4]) 0"
proof -
  define h where "h = staff_leaves [1, 2, 3, 4]"
  have c: "constraints fan_catalog h 0 =
     [(1, foreign_key_row ''engineer'' ''id'' ''employee''),
      (1, foreign_key_row ''manager'' ''id'' ''employee'')]"
    unfolding h_def by (rule fan_constraints)
  have r: "resolve h 0 (Suc 0, foreign_key_row ''engineer'' ''id'' ''employee'') =
     Some (KeyLink (Str ''id'') 2 5 6)"
    "resolve h 0 (Suc 0, foreign_key_row ''manager'' ''id'' ''employee'') =
     Some (KeyLink (Str ''id'') 3 5 7)"
    unfolding h_def by (rule fan_resolve)+
  have p: "parents (node_at h 6) = [2]" "parents (node_at h 7) = [3]"
    unfolding h_def by (simp_all add: example_defs)
  have "unchained fan_catalog h 0"
    by (simp add: unchained_def c r p)
  then show ?thesis
    unfolding h_def .
qed




subsection \<open>C2: several tables on one key\<close>

lemmas webs_defs =
  setup_db_tree_webs_def execute_query_def foreign_key_query_def
  apostrophe_def link_foreign_key_def field_def get_column_def get_table_def get_child_def
  column_add_table_def add_parent_def put_def Let_def remove_column_def remove_child_def

text \<open>
  C2 says that tables referencing the same key all end up among the parents of the one
  canonical column, in whatever order the constraints are processed, and the loop over
  \<^verbatim>\<open>foreign_key_node.parents\<close> is there to move every table already unified onto the
  duplicate. The loop removes from the list it iterates over, so after each table it
  moves it skips the next one. With \<^verbatim>\<open>engineer.id\<close> and \<^verbatim>\<open>manager.id\<close> referencing
  \<^verbatim>\<open>employee.id\<close>, and \<^verbatim>\<open>employee.id\<close> referencing \<^verbatim>\<open>person.id\<close>, processed in the order of
  the table names, the canonical column \<open>8\<close> of \<^verbatim>\<open>person\<close>, to which \<^verbatim>\<open>employee\<close> now
  resolves \<^verbatim>\<open>id\<close>, gets \<^verbatim>\<open>person\<close>, \<^verbatim>\<open>employee\<close> and \<^verbatim>\<open>engineer\<close> as parents, and
  \<^verbatim>\<open>manager\<close> is left behind on the old column \<open>5\<close>.
\<close>

theorem relink_skips_a_table:
  "fst (setup_db_tree_webs staff_catalog (staff_leaves [1, 2, 3, 4]) 0) = Inr staff_webs \<and>
   get_column staff_webs 1 (Str ''id'') = Some 8 \<and>
   parents (node_at staff_webs 8) = [4, 1, 2] \<and>
   3 \<notin> set (parents (node_at staff_webs 8)) \<and>
   get_column staff_webs 3 (Str ''id'') = Some 5 \<and>
   parents (node_at staff_webs 5) = [3]"
  by (simp add: example_defs webs_defs)

text \<open>With \<^verbatim>\<open>person\<close> processed first, the same constraints do unify the four tables.\<close>

lemma relink_other_order:
  "case fst (setup_db_tree_webs staff_catalog (staff_leaves [4, 1, 2, 3]) 0) of
     Inl e \<Rightarrow> False
   | Inr h \<Rightarrow> parents (node_at h 8) = [4, 1, 2, 3]"
  by (simp add: example_defs webs_defs)

end
